theory Spec2Isabelle
  imports Main "HOL-Library.Sublist"
begin

section \<open>Text and regular-expression passes of build-production.js\<close>

text \<open>
  A JavaScript string is a sequence of code units; the model uses \<^typ>\<open>string\<close>, so a
  character is a code unit below 256. None of the patterns of the build script has an
  anchor, a word boundary or a look-behind, so whether a pattern matches at a position
  depends only on the text from that position on: a pattern is modelled as a function
  from the remaining text to the length of the match that starts there.
\<close>

type_synonym matcher = "string \<Rightarrow> nat option"

text \<open>The class \<open>\s\<close> (and the characters removed by \<open>trim\<close>) below code unit 256.\<close>

definition isSpace :: "char \<Rightarrow> bool" where
  "isSpace c \<longleftrightarrow>
     c = CHR 0x09 \<or> c = CHR 0x0A \<or> c = CHR 0x0B \<or> c = CHR 0x0C \<or> c = CHR 0x0D
     \<or> c = CHR 0x20 \<or> c = CHR 0xA0"

text \<open>
  \<open>text.replace(/re/g, replacement)\<close>: the text is scanned from the left; at the first
  position where the pattern matches, the match is replaced and the scan goes on behind
  it; an empty match is replaced and the scan moves on by one character. The second
  argument gives the replacement text from the matched text.
\<close>

fun replaceAll :: "matcher \<Rightarrow> (string \<Rightarrow> string) \<Rightarrow> string \<Rightarrow> string" where
  "replaceAll m r [] = (case m [] of None \<Rightarrow> [] | Some _ \<Rightarrow> r [])"
| "replaceAll m r (c # cs) =
     (case m (c # cs) of
        None \<Rightarrow> c # replaceAll m r cs
      | Some 0 \<Rightarrow> r [] @ c # replaceAll m r cs
      | Some (Suc n) \<Rightarrow> r (take (Suc n) (c # cs)) @ replaceAll m r (drop n cs))"

text \<open>
  The matches that the scan of a global pattern finds, as (start index, length) pairs;
  \<open>pos\<close> is the index of the head of the remaining text.
\<close>

fun allMatches :: "matcher \<Rightarrow> nat \<Rightarrow> string \<Rightarrow> (nat \<times> nat) list" where
  "allMatches m pos [] = (case m [] of None \<Rightarrow> [] | Some n \<Rightarrow> [(pos, n)])"
| "allMatches m pos (c # cs) =
     (case m (c # cs) of
        None \<Rightarrow> allMatches m (Suc pos) cs
      | Some 0 \<Rightarrow> (pos, 0) # allMatches m (Suc pos) cs
      | Some (Suc n) \<Rightarrow> (pos, Suc n) # allMatches m (pos + Suc n) (drop n cs))"

text \<open>Replacing the spans of a list of matches, from index \<open>cur\<close> of the text on.\<close>

fun splice :: "(string \<Rightarrow> string) \<Rightarrow> nat \<Rightarrow> (nat \<times> nat) list \<Rightarrow> string \<Rightarrow> string" where
  "splice r cur [] s = drop cur s"
| "splice r cur ((p, n) # ms) s =
     take (p - cur) (drop cur s) @ r (take n (drop p s)) @ splice r (p + n) ms s"

text \<open>\<open>text.match(/re/g)\<close>: the matched texts in document order, \<open>null\<close> when there is none.\<close>

definition matchTexts :: "matcher \<Rightarrow> string \<Rightarrow> string list" where
  "matchTexts m s = map (\<lambda>(p, n). take n (drop p s)) (allMatches m 0 s)"

definition matchAll :: "matcher \<Rightarrow> string \<Rightarrow> string list option" where
  "matchAll m s = (case matchTexts m s of [] \<Rightarrow> None | t # ts \<Rightarrow> Some (t # ts))"

text \<open>\<open>String.prototype.trim\<close>.\<close>

definition trim :: "string \<Rightarrow> string" where
  "trim s = rev (dropWhile isSpace (rev (dropWhile isSpace s)))"

subsection \<open>The patterns of minifyJSContent\<close>

text \<open>
  The look-ahead body \<open>[^\n]*https?:\<close> tried at the head of a text: some run of
  characters other than line feed, then \<open>http:\<close> or \<open>https:\<close>.
\<close>

fun urlAhead :: "string \<Rightarrow> bool" where
  "urlAhead [] = False"
| "urlAhead (c # cs) =
     (prefix ''http:'' (c # cs) \<or> prefix ''https:'' (c # cs) \<or> (c \<noteq> CHR 0x0A \<and> urlAhead cs))"

text \<open>\<open>/\/\/(?![^\n]*https?:)[^\n]*/\<close>\<close>

definition lineComment :: matcher where
  "lineComment s =
     (case s of
        c1 # c2 # rest \<Rightarrow>
          if c1 = CHR ''/'' \<and> c2 = CHR ''/'' \<and> \<not> urlAhead rest
          then Some (2 + length (takeWhile (\<lambda>c. c \<noteq> CHR 0x0A) rest))
          else None
      | _ \<Rightarrow> None)"

text \<open>The index of the first \<open>*/\<close> of a text, which the lazy \<open>[\s\S]*?\<close> stops at.\<close>

fun findClose :: "string \<Rightarrow> nat option" where
  "findClose [] = None"
| "findClose (c # cs) =
     (if prefix ''*/'' (c # cs) then Some 0 else map_option Suc (findClose cs))"

text \<open>\<open>/\/\*[\s\S]*?\*\//\<close>\<close>

definition blockComment :: matcher where
  "blockComment s =
     (case s of
        c1 # c2 # rest \<Rightarrow>
          if c1 = CHR ''/'' \<and> c2 = CHR ''*''
          then map_option (\<lambda>k. k + 4) (findClose rest)
          else None
      | _ \<Rightarrow> None)"

text \<open>\<open>/\s+/\<close>\<close>

definition whitespaceRun :: matcher where
  "whitespaceRun s =
     (let n = length (takeWhile isSpace s) in if n = 0 then None else Some n)"

text \<open>
  \<open>/\s*([...])\s*/\<close> for a class of single characters: the white space in front is
  taken greedily, the next character has to be in the class (giving back white space
  cannot help, the character behind it is then white space), then the white space behind.
\<close>

definition spacedChar :: "char list \<Rightarrow> matcher" where
  "spacedChar cls s =
     (case dropWhile isSpace s of
        [] \<Rightarrow> None
      | c # rest \<Rightarrow>
          if c \<in> set cls
          then Some (length (takeWhile isSpace s) + 1 + length (takeWhile isSpace rest))
          else None)"

text \<open>The replacement \<open>'$1'\<close> for such a match: the character of the group.\<close>

definition group1 :: "string \<Rightarrow> string" where
  "group1 matched = take 1 (dropWhile isSpace matched)"

definition jsPunctuation :: "char list" where
  "jsPunctuation = ''{}();,=+-*/<>!&|''"

definition minifyJSContent :: "string \<Rightarrow> string" where
  "minifyJSContent js =
     trim
       (replaceAll (spacedChar jsPunctuation) group1
         (replaceAll whitespaceRun (\<lambda>_. '' '')
           (replaceAll blockComment (\<lambda>_. [])
             (replaceAll lineComment (\<lambda>_. []) js))))"

text \<open>
  The spec's words for the exception of the line-comment pass: the marker is followed
  later on the same line by \<open>http:\<close> or \<open>https:\<close>; the argument is the text behind the
  marker.
\<close>

definition followedByUrlOnLine :: "string \<Rightarrow> bool" where
  "followedByUrlOnLine rest \<longleftrightarrow>
     (\<exists>a b. rest = a @ b \<and> CHR 0x0A \<notin> set a \<and> (prefix ''http:'' b \<or> prefix ''https:'' b))"

subsection \<open>minifyCSSContent\<close>

definition cssStructural :: "char list" where
  "cssStructural = ''{}:;,>+~''"

text \<open>\<open>/;}/\<close>\<close>

definition semicolonBrace :: matcher where
  "semicolonBrace s = (if prefix '';}'' s then Some 2 else None)"

definition minifyCSSContent :: "string \<Rightarrow> string" where
  "minifyCSSContent css =
     trim
       (replaceAll semicolonBrace (\<lambda>_. ''}'')
         (replaceAll (spacedChar cssStructural) group1
           (replaceAll whitespaceRun (\<lambda>_. '' '')
             (replaceAll blockComment (\<lambda>_. []) css))))"

subsection \<open>The text computed by extractCriticalCSS\<close>

definition criticalSelectors :: "string list" where
  "criticalSelectors =
     ['':root'',
      ''html'', ''body'',
      ''.site-header'', ''.main-nav'', ''.nav-container'', ''.logo'', ''.nav-menu'', ''.nav-link'',
      ''.mobile-menu-toggle'', ''.hamburger-line'',
      ''.hero-section'', ''.hero-container'', ''.event-title'', ''.hero-subtitle'', ''.hero-date'',
      ''.cta-button'', ''.scroll-indicator'', ''.scroll-arrow'',
      ''.skip-link'',
      ''.sr-only'',
      ''.text-center'', ''.text-white'', ''.bg-purple'', ''.font-bold'']"

text \<open>
  A pattern \<open>lit\s*{[^}]*}\<close> for a literal text \<open>lit\<close>: the literal, white space, an
  opening brace, the characters up to the next closing brace, and that brace.
\<close>

definition ruleBlock :: "string \<Rightarrow> matcher" where
  "ruleBlock lit s =
     (if prefix lit s then
        (let afterLit = drop (length lit) s in
         case dropWhile isSpace afterLit of
           [] \<Rightarrow> None
         | c # body \<Rightarrow>
             if c = CHR ''{'' then
               (case dropWhile (\<lambda>c. c \<noteq> CHR ''}'') body of
                  [] \<Rightarrow> None
                | _ # _ \<Rightarrow>
                    Some (length lit + length (takeWhile isSpace afterLit) + 1
                          + length (takeWhile (\<lambda>c. c \<noteq> CHR ''}'') body) + 1))
             else None)
      else None)"

text \<open>\<open>/:root\s*{[^}]*}/\<close>\<close>

definition rootRegex :: matcher where
  "rootRegex = ruleBlock '':root''"

text \<open>\<open>/[.*+?^${}()|[\]\\]/\<close> and the replacement \<open>'\\$&'\<close>: a backslash, then the match.\<close>

definition metaChar :: matcher where
  "metaChar s =
     (case s of
        [] \<Rightarrow> None
      | c # _ \<Rightarrow> if c \<in> set (''.*+?^${}()|[]'' @ [CHR 0x5C]) then Some 1 else None)"

definition escapeSelector :: "string \<Rightarrow> string" where
  "escapeSelector selector = replaceAll metaChar (\<lambda>matched. CHR 0x5C # matched) selector"

text \<open>
  The text that a pattern source matches when it consists of plain characters and
  backslash escapes of single characters only, as the escaped selector does: an escaped
  character stands for itself.
\<close>

fun patternLiteral :: "string \<Rightarrow> string" where
  "patternLiteral [] = []"
| "patternLiteral [c] = [c]"
| "patternLiteral (c # d # ds) =
     (if c = CHR 0x5C then d # patternLiteral ds else c # patternLiteral (d # ds))"

text \<open>\<open>new RegExp(`${escapedSelector}\\s*{[^}]*}`, 'g')\<close>\<close>

definition selectorRegex :: "string \<Rightarrow> matcher" where
  "selectorRegex escapedSelector = ruleBlock (patternLiteral escapedSelector)"

text \<open>\<open>if (matches) { criticalCSS += matches.join('') }\<close>\<close>

definition appendMatches :: "string \<Rightarrow> string list option \<Rightarrow> string" where
  "appendMatches criticalCSS matches =
     (case matches of None \<Rightarrow> criticalCSS | Some ms \<Rightarrow> criticalCSS @ concat ms)"

definition criticalCSSText :: "string \<Rightarrow> string" where
  "criticalCSSText fullCSS =
     foldl (\<lambda>criticalCSS selector.
              appendMatches criticalCSS (matchAll (selectorRegex (escapeSelector selector)) fullCSS))
       (appendMatches [] (matchAll rootRegex fullCSS))
       criticalSelectors"

text \<open>
  The rule blocks that the extractor emits, in the order of emission: the matches of the
  first pass, then the matches of each selector of the list.
\<close>

definition criticalBlocks :: "string \<Rightarrow> string list" where
  "criticalBlocks fullCSS =
     matchTexts rootRegex fullCSS
     @ concat (map (\<lambda>selector. matchTexts (selectorRegex (escapeSelector selector)) fullCSS)
                criticalSelectors)"

subsection \<open>The text computed by updateHTMLForProduction\<close>

text \<open>
  A pattern \<open>pre[^"]+ext"post\<close> where \<open>ext\<close> has no double quote: the name \<open>[^"]+\<close> and
  \<open>ext\<close> together are the characters up to the next double quote, so the pattern matches
  when that run ends with \<open>ext\<close>, is longer than \<open>ext\<close>, and the quote and \<open>post\<close> follow.
\<close>

definition quotedName :: "string \<Rightarrow> string \<Rightarrow> string \<Rightarrow> matcher" where
  "quotedName pre ext post s =
     (if prefix pre s then
        (let rest = drop (length pre) s;
             run = takeWhile (\<lambda>c. c \<noteq> CHR 0x22) rest
         in if length ext < length run \<and> suffix ext run
               \<and> prefix (CHR 0x22 # post) (drop (length run) rest)
            then Some (length pre + length run + 1 + length post)
            else None)
      else None)"

text \<open>\<open>/<link rel="stylesheet" href="css\/[^"]+\.css">/\<close>\<close>

definition stylesheetLink :: matcher where
  \<open>stylesheetLink = quotedName ''<link rel="stylesheet" href="css/'' ''.css'' ''>''\<close>

text \<open>\<open>/    <script src="js\/[^"]+\.js"><\/script>\n/\<close>\<close>

definition scriptLine :: matcher where
  \<open>scriptLine = quotedName ''    <script src="js/'' ''.js'' ''></script>\<newline>''\<close>

text \<open>\<open>indexOf\<close>: the index of the first occurrence of a text.\<close>

fun indexOf :: "string \<Rightarrow> string \<Rightarrow> nat option" where
  "indexOf pat [] = (if pat = [] then Some 0 else None)"
| "indexOf pat (c # cs) =
     (if prefix pat (c # cs) then Some 0 else map_option Suc (indexOf pat cs))"

text \<open>
  The replacement text of \<open>text.replace(pattern, template)\<close> for a pattern that is a
  string, so that there is no group: in the template \<open>$$\<close> is a dollar sign, \<open>$&\<close> the
  matched text, \<open>$`\<close> the text in front of the match and \<open>$'\<close> the text behind it; any
  other character, and a dollar sign in front of it, stands for itself.
\<close>

fun getSubstitution :: "string \<Rightarrow> string \<Rightarrow> string \<Rightarrow> string \<Rightarrow> string" where
  "getSubstitution matched front behind [] = []"
| "getSubstitution matched front behind [c] = [c]"
| "getSubstitution matched front behind (c # d # ds) =
     (if c = CHR ''$'' then
        (if d = CHR ''$'' then CHR ''$'' # getSubstitution matched front behind ds
         else if d = CHR ''&'' then matched @ getSubstitution matched front behind ds
         else if d = CHR 0x60 then front @ getSubstitution matched front behind ds
         else if d = CHR 0x27 then behind @ getSubstitution matched front behind ds
         else c # getSubstitution matched front behind (d # ds))
      else c # getSubstitution matched front behind (d # ds))"

text \<open>\<open>text.replace(pattern, template)\<close> for a string pattern: the first occurrence only.\<close>

definition replaceFirst :: "string \<Rightarrow> string \<Rightarrow> string \<Rightarrow> string" where
  "replaceFirst pat template s =
     (case indexOf pat s of
        None \<Rightarrow> s
      | Some i \<Rightarrow>
          take i s
          @ getSubstitution pat (take i s) (drop (i + length pat) s) template
          @ drop (i + length pat) s)"

definition headClose :: string where
  "headClose = ''</head>''"

definition bodyClose :: string where
  "bodyClose = ''</body>''"

definition authorMeta :: string where
  \<open>authorMeta = ''<meta name="author" content="Side Quest Market">''\<close>

definition styleTemplate :: "string \<Rightarrow> string" where
  "styleTemplate criticalCSS = ''    <style>'' @ criticalCSS @ ''</style>\<newline></head>''"

definition preloadTemplate :: string where
  \<open>preloadTemplate =
     ''    <link rel="preload" href="css/styles.min.css" as="style" onload="this.onload=null;this.rel=''
     @ [CHR 0x27] @ ''stylesheet'' @ [CHR 0x27] @ ''">\<newline>''
     @ ''    <noscript><link rel="stylesheet" href="css/styles.min.css"></noscript>\<newline></head>''\<close>

definition scriptTemplate :: string where
  \<open>scriptTemplate = ''    <script src="js/scripts.min.js"></script>\<newline></body>''\<close>

definition metaTemplate :: string where
  \<open>metaTemplate =
     ''<meta name="author" content="Side Quest Market">\<newline>''
     @ ''    \<newline>''
     @ ''    <!-- Performance and caching meta tags -->\<newline>''
     @ ''    <meta http-equiv="Cache-Control" content="public, max-age=31536000">\<newline>''
     @ ''    <meta http-equiv="Expires" content="Thu, 31 Dec 2025 23:59:59 GMT">\<newline>''
     @ ''    <link rel="dns-prefetch" href="//cdn.emailjs.com">\<newline>''
     @ ''    <link rel="dns-prefetch" href="//www.eventbrite.com">''\<close>

text \<open>The six replacements of updateHTMLForProduction, in the order of the source.\<close>

definition removeStylesheetLinks :: "string \<Rightarrow> string" where
  "removeStylesheetLinks html = replaceAll stylesheetLink (\<lambda>_. []) html"

definition inlineCriticalCSS :: "string \<Rightarrow> string \<Rightarrow> string" where
  "inlineCriticalCSS criticalCSS html = replaceFirst headClose (styleTemplate criticalCSS) html"

definition addPreloadLink :: "string \<Rightarrow> string" where
  "addPreloadLink html = replaceFirst headClose preloadTemplate html"

definition removeScriptLines :: "string \<Rightarrow> string" where
  "removeScriptLines html = replaceAll scriptLine (\<lambda>_. []) html"

definition addBundledScript :: "string \<Rightarrow> string" where
  "addBundledScript html = replaceFirst bodyClose scriptTemplate html"

definition addPerformanceMeta :: "string \<Rightarrow> string" where
  "addPerformanceMeta html = replaceFirst authorMeta metaTemplate html"

definition productionHTML :: "string \<Rightarrow> string \<Rightarrow> string" where
  "productionHTML criticalCSS html =
     addPerformanceMeta
       (addBundledScript
         (removeScriptLines
           (addPreloadLink
             (inlineCriticalCSS criticalCSS
               (removeStylesheetLinks html)))))"

section \<open>The file system and the stages of the build\<close>

text \<open>
  The files that the build reads and writes. A path is the list of its segments,
  relative to the working directory, which is the empty path. A directory holds the
  names of its entries in the order in which \<open>readdirSync\<close> lists them.
\<close>

datatype node = File string | Directory "string list"

type_synonym path = "string list"

type_synonym filesystem = "path \<rightharpoonup> node"

datatype error = ENOENT | ENOTDIR | EISDIR | EEXIST

fun splitOn :: "char \<Rightarrow> string \<Rightarrow> string list" where
  "splitOn d [] = [[]]"
| "splitOn d (c # cs) =
     (if c = d then [] # splitOn d cs
      else (case splitOn d cs of [] \<Rightarrow> [[c]] | seg # segs \<Rightarrow> (c # seg) # segs))"

text \<open>The segments of a path written with slashes; \<open>.\<close> and \<open>..\<close> are not interpreted.\<close>

definition pathOf :: "string \<Rightarrow> path" where
  "pathOf s = filter (\<lambda>seg. seg \<noteq> []) (splitOn CHR ''/'' s)"

text \<open>\<open>path.join\<close>\<close>

definition pathJoin :: "string list \<Rightarrow> path" where
  "pathJoin parts = concat (map pathOf parts)"

definition existsSync :: "filesystem \<Rightarrow> path \<Rightarrow> bool" where
  "existsSync fs p \<longleftrightarrow> fs p \<noteq> None"

definition readFileSync :: "filesystem \<Rightarrow> path \<Rightarrow> error + string" where
  "readFileSync fs p =
     (case fs p of
        None \<Rightarrow> Inl ENOENT
      | Some (Directory _) \<Rightarrow> Inl EISDIR
      | Some (File content) \<Rightarrow> Inr content)"

definition writeFileSync :: "filesystem \<Rightarrow> path \<Rightarrow> string \<Rightarrow> error + filesystem" where
  "writeFileSync fs p content =
     (if p = [] then Inl EISDIR
      else case fs p of
        Some (Directory _) \<Rightarrow> Inl EISDIR
      | _ \<Rightarrow>
         (case fs (butlast p) of
            None \<Rightarrow> Inl ENOENT
          | Some (File _) \<Rightarrow> Inl ENOTDIR
          | Some (Directory names) \<Rightarrow>
              Inr (fs(butlast p \<mapsto> Directory (if last p \<in> set names then names
                                                else names @ [last p]),
                      p \<mapsto> File content))))"

text \<open>
  \<open>mkdirSync(p, { recursive: true })\<close>: the segments of the path are created from the
  working directory down, where they do not exist yet.
\<close>

fun mkdirFrom :: "filesystem \<Rightarrow> path \<Rightarrow> string list \<Rightarrow> error + filesystem" where
  "mkdirFrom fs base [] = Inr fs"
| "mkdirFrom fs base (name # rest) =
     (case fs (base @ [name]) of
        Some (File _) \<Rightarrow> Inl (if rest = [] then EEXIST else ENOTDIR)
      | Some (Directory _) \<Rightarrow> mkdirFrom fs (base @ [name]) rest
      | None \<Rightarrow>
         (case fs base of
            None \<Rightarrow> Inl ENOENT
          | Some (File _) \<Rightarrow> Inl ENOTDIR
          | Some (Directory names) \<Rightarrow>
              mkdirFrom (fs(base \<mapsto> Directory (names @ [name]),
                            base @ [name] \<mapsto> Directory []))
                (base @ [name]) rest))"

definition mkdirSync :: "filesystem \<Rightarrow> path \<Rightarrow> error + filesystem" where
  "mkdirSync fs p = mkdirFrom fs [] p"

definition readdirSync :: "filesystem \<Rightarrow> path \<Rightarrow> error + string list" where
  "readdirSync fs p =
     (case fs p of
        None \<Rightarrow> Inl ENOENT
      | Some (File _) \<Rightarrow> Inl ENOTDIR
      | Some (Directory names) \<Rightarrow> Inr names)"

text \<open>\<open>statSync(p).isDirectory()\<close>\<close>

definition isDirectory :: "filesystem \<Rightarrow> path \<Rightarrow> error + bool" where
  "isDirectory fs p =
     (case fs p of
        None \<Rightarrow> Inl ENOENT
      | Some (File _) \<Rightarrow> Inr False
      | Some (Directory _) \<Rightarrow> Inr True)"

definition copyFileSync :: "filesystem \<Rightarrow> path \<Rightarrow> path \<Rightarrow> error + filesystem" where
  "copyFileSync fs src dest =
     (case readFileSync fs src of
        Inl e \<Rightarrow> Inl e
      | Inr content \<Rightarrow> writeFileSync fs dest content)"

text \<open>
  What a stage of the build leaves behind: it completes, or it throws and the files
  written so far stay; \<open>OutOfFuel\<close> stands for a recursion of \<open>copyDirectory\<close> that has
  not come to an end within the given number of nested calls.
\<close>

datatype outcome = Completed filesystem | Threw error filesystem | OutOfFuel

definition andThen :: "outcome \<Rightarrow> (filesystem \<Rightarrow> outcome) \<Rightarrow> outcome" where
  "andThen r next =
     (case r of Completed fs \<Rightarrow> next fs | Threw e fs \<Rightarrow> Threw e fs | OutOfFuel \<Rightarrow> OutOfFuel)"

text \<open>An operation of the file system as a step: when it throws, the files are as before.\<close>

definition attempt :: "filesystem \<Rightarrow> error + filesystem \<Rightarrow> outcome" where
  "attempt fs r = (case r of Inl e \<Rightarrow> Threw e fs | Inr fs' \<Rightarrow> Completed fs')"

record builder =
  cssFiles :: "string list"
  jsFiles :: "string list"
  outputDir :: string

text \<open>The constructor of ProductionBuilder.\<close>

definition productionBuilder :: builder where
  "productionBuilder =
     \<lparr> cssFiles = [''css/main.css'', ''css/components.css'', ''css/responsive.css'',
                   ''css/accessibility.css'', ''css/typography.css'', ''css/images.css''],
       jsFiles = [''js/font-loader.js'', ''js/image-lazy-loading.js'', ''js/main.js'',
                  ''js/navigation.js'', ''js/keyboard-navigation.js'', ''js/contact-form.js'',
                  ''js/smooth-scroll.js''],
       outputDir = ''dist'' \<rparr>"

text \<open>\<open>if (!fs.existsSync(dir)) { fs.mkdirSync(dir, { recursive: true }) }\<close>\<close>

definition ensureDirectory :: "path \<Rightarrow> filesystem \<Rightarrow> outcome" where
  "ensureDirectory dir fs =
     (if \<not> existsSync fs dir then attempt fs (mkdirSync fs dir) else Completed fs)"

fun forEachSubdirectory :: "builder \<Rightarrow> string list \<Rightarrow> filesystem \<Rightarrow> outcome" where
  "forEachSubdirectory b [] fs = Completed fs"
| "forEachSubdirectory b (dir # dirs) fs =
     andThen (ensureDirectory (pathJoin [outputDir b, dir]) fs) (forEachSubdirectory b dirs)"

definition createOutputDirectory :: "builder \<Rightarrow> filesystem \<Rightarrow> outcome" where
  "createOutputDirectory b fs =
     andThen (ensureDirectory (pathOf (outputDir b)) fs)
       (forEachSubdirectory b [''css'', ''js'', ''assets'', ''fonts''])"

text \<open>\<open>`/* ${file} */\n${content}\n\n`\<close>\<close>

definition fileSection :: "string \<Rightarrow> string \<Rightarrow> string" where
  "fileSection file content = ''/* '' @ file @ '' */\<newline>'' @ content @ ''\<newline>\<newline>''"

text \<open>
  The loop of minifyCSS and of minifyJavaScript over the list of source files, with the
  text combined so far.
\<close>

fun combineFiles :: "filesystem \<Rightarrow> string \<Rightarrow> string list \<Rightarrow> error + string" where
  "combineFiles fs combined [] = Inr combined"
| "combineFiles fs combined (file # files) =
     (if existsSync fs (pathOf file) then
        (case readFileSync fs (pathOf file) of
           Inl e \<Rightarrow> Inl e
         | Inr content \<Rightarrow> combineFiles fs (combined @ fileSection file content) files)
      else combineFiles fs combined files)"

definition minifyCSS :: "builder \<Rightarrow> filesystem \<Rightarrow> outcome" where
  "minifyCSS b fs =
     (case combineFiles fs [] (cssFiles b) of
        Inl e \<Rightarrow> Threw e fs
      | Inr combinedCSS \<Rightarrow>
          attempt fs (writeFileSync fs (pathJoin [outputDir b, ''css'', ''styles.min.css''])
                        (minifyCSSContent combinedCSS)))"

definition minifyJavaScript :: "builder \<Rightarrow> filesystem \<Rightarrow> outcome" where
  "minifyJavaScript b fs =
     (case combineFiles fs [] (jsFiles b) of
        Inl e \<Rightarrow> Threw e fs
      | Inr combinedJS \<Rightarrow>
          attempt fs (writeFileSync fs (pathJoin [outputDir b, ''js'', ''scripts.min.js''])
                        (minifyJSContent combinedJS)))"

definition extractCriticalCSS :: "builder \<Rightarrow> filesystem \<Rightarrow> outcome" where
  "extractCriticalCSS b fs =
     (case readFileSync fs (pathJoin [outputDir b, ''css'', ''styles.min.css'']) of
        Inl e \<Rightarrow> Threw e fs
      | Inr fullCSS \<Rightarrow>
          attempt fs (writeFileSync fs (pathJoin [outputDir b, ''css'', ''critical.min.css''])
                        (criticalCSSText fullCSS)))"

text \<open>
  copyDirectory, and its loop over the entries of the source directory. The first
  argument bounds the depth of the nested calls.
\<close>

fun copyDirectory :: "nat \<Rightarrow> path \<Rightarrow> path \<Rightarrow> filesystem \<Rightarrow> outcome"
  and copyItems :: "nat \<Rightarrow> path \<Rightarrow> path \<Rightarrow> string list \<Rightarrow> filesystem \<Rightarrow> outcome" where
  "copyDirectory 0 src dest fs = OutOfFuel"
| "copyDirectory (Suc fuel) src dest fs =
     andThen (ensureDirectory dest fs)
       (\<lambda>fs1. case readdirSync fs1 src of
                 Inl e \<Rightarrow> Threw e fs1
               | Inr items \<Rightarrow> copyItems fuel src dest items fs1)"
| "copyItems fuel src dest [] fs = Completed fs"
| "copyItems fuel src dest (item # items) fs =
     andThen
       (case isDirectory fs (src @ [item]) of
          Inl e \<Rightarrow> Threw e fs
        | Inr True \<Rightarrow> copyDirectory fuel (src @ [item]) (dest @ [item]) fs
        | Inr False \<Rightarrow> attempt fs (copyFileSync fs (src @ [item]) (dest @ [item])))
       (copyItems fuel src dest items)"

definition copyAssets :: "nat \<Rightarrow> builder \<Rightarrow> filesystem \<Rightarrow> outcome" where
  "copyAssets fuel b fs =
     andThen
       (if existsSync fs (pathOf ''assets'')
        then copyDirectory fuel (pathOf ''assets'') (pathJoin [outputDir b, ''assets'']) fs
        else Completed fs)
       (\<lambda>fs1. if existsSync fs1 (pathOf ''fonts'')
               then copyDirectory fuel (pathOf ''fonts'') (pathJoin [outputDir b, ''fonts'']) fs1
               else Completed fs1)"

definition updateHTMLForProduction :: "builder \<Rightarrow> filesystem \<Rightarrow> outcome" where
  "updateHTMLForProduction b fs =
     (case readFileSync fs (pathOf ''index.html'') of
        Inl e \<Rightarrow> Threw e fs
      | Inr html \<Rightarrow>
         (case readFileSync fs (pathJoin [outputDir b, ''css'', ''critical.min.css'']) of
            Inl e \<Rightarrow> Threw e fs
          | Inr criticalCSS \<Rightarrow>
              attempt fs (writeFileSync fs (pathJoin [outputDir b, ''index.html''])
                            (productionHTML criticalCSS html))))"

text \<open>
  build: the stages in the order of the source; the first one that throws ends the
  build (the \<open>catch\<close> reports the error and the process exits with status 1).
\<close>

definition build :: "nat \<Rightarrow> builder \<Rightarrow> filesystem \<Rightarrow> outcome" where
  "build fuel b fs =
     andThen (andThen (andThen (andThen (andThen
       (createOutputDirectory b fs)
       (minifyCSS b))
       (minifyJavaScript b))
       (extractCriticalCSS b))
       (copyAssets fuel b))
       (updateHTMLForProduction b)"

text \<open>The four artifacts of the build.\<close>

definition artifacts :: "builder \<Rightarrow> path list" where
  "artifacts b =
     [pathJoin [outputDir b, ''css'', ''styles.min.css''],
      pathJoin [outputDir b, ''js'', ''scripts.min.js''],
      pathJoin [outputDir b, ''css'', ''critical.min.css''],
      pathJoin [outputDir b, ''index.html'']]"

text \<open>The text of a file, for a path that is a file.\<close>

definition fileText :: "filesystem \<Rightarrow> path \<Rightarrow> string" where
  "fileText fs p = (case fs p of Some (File content) \<Rightarrow> content | _ \<Rightarrow> [])"

text \<open>A small working directory, for concrete runs.\<close>

definition exampleFiles :: filesystem where
  \<open>exampleFiles =
     [[] \<mapsto> Directory [''css'', ''js'', ''index.html'', ''assets''],
      [''css''] \<mapsto> Directory [''main.css'', ''images.css''],
      [''css'', ''main.css''] \<mapsto> File '':root { --c: red; }'',
      [''css'', ''images.css''] \<mapsto> File ''.logo { width: 1px; }'',
      [''js''] \<mapsto> Directory [''main.js''],
      [''js'', ''main.js''] \<mapsto> File ''var a = 1; // one'',
      [''index.html''] \<mapsto>
        File (''<head>\<newline>'' @ ''<link rel="stylesheet" href="css/main.css">\<newline>''
              @ ''</head>\<newline><body>\<newline>''
              @ ''    <script src="js/main.js"></script>\<newline>'' @ ''</body>\<newline>''),
      [''assets''] \<mapsto> Directory [''logo.svg''],
      [''assets'', ''logo.svg''] \<mapsto> File ''<svg/>'']\<close>

section \<open>Notions used to state and prove the properties of the rewriter\<close>





definition mainScriptTag :: string where
  \<open>mainScriptTag = ''<script src="js/main.js"></script>''\<close>

definition bundledScriptTag :: string where
  \<open>bundledScriptTag = ''<script src="js/scripts.min.js"></script>''\<close>



text \<open>
  A page with a stylesheet link, a script line and \<open></body>\<close>, but without \<open></head>\<close>
  and without the author meta tag, and a working directory that holds it, as the stage
  extractCriticalCSS leaves it.
\<close>

definition headlessPage :: string where
  \<open>headlessPage =
     ''<link rel="stylesheet" href="css/main.css">\<newline>'' @ ''<body>\<newline>''
     @ ''    <script src="js/main.js"></script>\<newline>'' @ ''</body>''\<close>

definition headlessSite :: filesystem where
  "headlessSite =
     [[] \<mapsto> Directory [''index.html'', ''dist''],
      [''index.html''] \<mapsto> File headlessPage,
      [''dist''] \<mapsto> Directory [''css''],
      [''dist'', ''css''] \<mapsto> Directory [''critical.min.css''],
      [''dist'', ''css'', ''critical.min.css''] \<mapsto> File ''a{}'']"

text \<open>A page with \<open></head>\<close> and the author meta tag, but without \<open></body>\<close>.\<close>

definition bodilessPage :: string where
  \<open>bodilessPage =
     ''<head>\<newline>'' @ ''<meta name="author" content="Side Quest Market">\<newline>''
     @ ''</head>\<newline>'' @ ''<p>x</p>''\<close>

section \<open>Notions used to compare the files before and after a stage\<close>

text \<open>
  From one state of the files to a later one, a file is still a file and a directory
  is still a directory and has kept its entries.
\<close>

definition grows :: "filesystem \<Rightarrow> filesystem \<Rightarrow> bool" where
  "grows fs fs' \<longleftrightarrow>
     (\<forall>p. (\<forall>c. fs p = Some (File c) \<longrightarrow> (\<exists>c'. fs' p = Some (File c')))
        \<and> (\<forall>ns. fs p = Some (Directory ns)
              \<longrightarrow> (\<exists>ns'. fs' p = Some (Directory ns') \<and> set ns \<subseteq> set ns')))"

text \<open>
  The directory \<open>dest\<close> holds a copy of the directory \<open>src\<close>, down to the given depth:
  every entry of \<open>src\<close> that is a file is in \<open>dest\<close> with the same content, and every
  entry that is a directory is copied in the same sense.
\<close>

fun mirrors :: "nat \<Rightarrow> filesystem \<Rightarrow> path \<Rightarrow> path \<Rightarrow> bool" where
  "mirrors 0 G src dest = False"
| "mirrors (Suc k) G src dest =
     (G dest \<noteq> None \<and>
      (case G src of
         Some (Directory items) \<Rightarrow>
           (\<forall>item\<in>set items.
              case G (src @ [item]) of
                None \<Rightarrow> False
              | Some (File content) \<Rightarrow>
                  G (dest @ [item]) = Some (File content)
                  \<and> (\<exists>ns. G dest = Some (Directory ns) \<and> item \<in> set ns)
              | Some (Directory _) \<Rightarrow> mirrors k G (src @ [item]) (dest @ [item]))
       | _ \<Rightarrow> False))"

text \<open>The body of the loop of copyDirectory for one entry.\<close>

definition copyItem :: "nat \<Rightarrow> path \<Rightarrow> path \<Rightarrow> string \<Rightarrow> filesystem \<Rightarrow> outcome" where
  "copyItem fuel src dest item fs =
     (case isDirectory fs (src @ [item]) of
        Inl e \<Rightarrow> Threw e fs
      | Inr True \<Rightarrow> copyDirectory fuel (src @ [item]) (dest @ [item]) fs
      | Inr False \<Rightarrow> attempt fs (copyFileSync fs (src @ [item]) (dest @ [item])))"

text \<open>The entry \<open>item\<close> of \<open>src\<close> has its copy in \<open>dest\<close>.\<close>

definition itemMirrored :: "nat \<Rightarrow> filesystem \<Rightarrow> path \<Rightarrow> path \<Rightarrow> string \<Rightarrow> bool" where
  "itemMirrored k G src dest item =
     (case G (src @ [item]) of
        None \<Rightarrow> False
      | Some (File content) \<Rightarrow>
          G (dest @ [item]) = Some (File content)
          \<and> (\<exists>ns. G dest = Some (Directory ns) \<and> item \<in> set ns)
      | Some (Directory _) \<Rightarrow> mirrors k G (src @ [item]) (dest @ [item]))"

text \<open>Neither of two paths lies at or below the other.\<close>

definition apart :: "path \<Rightarrow> path \<Rightarrow> bool" where
  "apart p q \<longleftrightarrow> \<not> prefix p q \<and> \<not> prefix q p"

text \<open>
  A path that the build does not write to: not the working directory itself, and not
  the output directory or a path below it.
\<close>

definition sourcePath :: "path \<Rightarrow> bool" where
  "sourcePath p \<longleftrightarrow> p \<noteq> [] \<and> \<not> prefix [''dist''] p"

section \<open>Properties of the scan of a global pattern\<close>

lemma allMatches_member:
  "(p, n) \<in> set (allMatches m pos s) \<Longrightarrow> \<exists>k. p = pos + k \<and> m (drop k s) = Some n"
proof (induction m pos s rule: allMatches.induct)
  case (1 m pos)
  then show ?case by (auto split: option.splits)
next
  case (2 m pos c cs)
  show ?case
  proof (cases "m (c # cs)")
    case None
    with 2 obtain k where "p = Suc pos + k" "m (drop k cs) = Some n"
      by auto
    then show ?thesis by (intro exI[of _ "Suc k"]) simp
  next
    case (Some l)
    show ?thesis
    proof (cases l)
      case 0
      with Some 2 consider "(p, n) = (pos, 0)" | "(p, n) \<in> set (allMatches m (Suc pos) cs)"
        by auto
      then show ?thesis
      proof cases
        case 1
        with Some 0 show ?thesis by (intro exI[of _ 0]) simp
      next
        case 2
        with "2.IH"(2)[OF Some 0] obtain k where "p = Suc pos + k" "m (drop k cs) = Some n"
          by auto
        then show ?thesis by (intro exI[of _ "Suc k"]) simp
      qed
    next
      case (Suc l')
      with Some 2 consider "(p, n) = (pos, Suc l')"
        | "(p, n) \<in> set (allMatches m (pos + Suc l') (drop l' cs))"
        by auto
      then show ?thesis
      proof cases
        case 1
        with Some Suc show ?thesis by (intro exI[of _ 0]) simp
      next
        case 2
        with "2.IH"(3)[OF Some Suc] obtain k
          where k: "p = pos + Suc l' + k" "m (drop k (drop l' cs)) = Some n"
          by auto
        then show ?thesis by (intro exI[of _ "Suc l' + k"]) (auto simp: add.commute)
      qed
    qed
  qed
qed

lemma allMatches_ge: "(p, n) \<in> set (allMatches m pos s) \<Longrightarrow> pos \<le> p"
  using allMatches_member by fastforce

lemma splice_skip:
  "cur \<le> cur' \<Longrightarrow> \<forall>(p, n)\<in>set ms. cur' \<le> p \<Longrightarrow>
   splice r cur ms s = take (cur' - cur) (drop cur s) @ splice r cur' ms s"
proof (cases ms)
  case Nil
  assume "cur \<le> cur'"
  then have "drop cur' s = drop (cur' - cur) (drop cur s)" by simp
  with Nil show ?thesis by (metis append_take_drop_id splice.simps(1))
next
  case (Cons a ms')
  assume h: "cur \<le> cur'" "\<forall>(p, n)\<in>set ms. cur' \<le> p"
  obtain p n where a: "a = (p, n)" by (cases a)
  with h Cons have le: "cur' \<le> p" by auto
  have "take (p - cur) (drop cur s)
      = take (cur' - cur) (drop cur s) @ take (p - cur') (drop cur' s)"
  proof -
    have "p - cur = (cur' - cur) + (p - cur')" using h(1) le by simp
    moreover have "drop (cur' - cur) (drop cur s) = drop cur' s" using h(1) by simp
    ultimately show ?thesis by (simp only: take_add)
  qed
  with Cons a show ?thesis by simp
qed

text \<open>
  The result of a global replacement is the text with exactly the spans of
  \<open>allMatches\<close> replaced.
\<close>

lemma replaceAll_splice_gen:
  "replaceAll m r s = splice r (length pre) (allMatches m (length pre) s) (pre @ s)"
proof (induction m r s arbitrary: pre rule: replaceAll.induct)
  case (1 m r)
  then show ?case by (simp split: option.splits)
next
  case (2 m r c cs)
  have skip: "splice r (length pre) (allMatches m (Suc (length pre)) cs) (pre @ c # cs)
      = c # splice r (Suc (length pre)) (allMatches m (Suc (length pre)) cs) (pre @ c # cs)"
    using splice_skip[of "length pre" "Suc (length pre)"
        "allMatches m (Suc (length pre)) cs" r "pre @ c # cs"]
      allMatches_ge[of _ _ m "Suc (length pre)" cs] by auto
  show ?case
  proof (cases "m (c # cs)")
    case None
    with "2.IH"(1)[OF None, of "pre @ [c]"] skip show ?thesis by simp
  next
    case (Some l)
    show ?thesis
    proof (cases l)
      case 0
      with "2.IH"(2)[OF Some 0, of "pre @ [c]"] skip Some show ?thesis by simp
    next
      case (Suc l')
      show ?thesis
      proof (cases "l' \<le> length cs")
        case True
        have "replaceAll m r (drop l' cs)
            = splice r (length (pre @ c # take l' cs))
                (allMatches m (length (pre @ c # take l' cs)) (drop l' cs))
                ((pre @ c # take l' cs) @ drop l' cs)"
          using "2.IH"(3)[OF Some Suc] .
        moreover have "length (pre @ c # take l' cs) = length pre + Suc l'"
          using True by simp
        ultimately show ?thesis using Some Suc by simp
      next
        case False
        then show ?thesis using Some Suc by (simp split: option.splits)
      qed
    qed
  qed
qed

lemma replaceAll_splice: "replaceAll m r s = splice r 0 (allMatches m 0 s) s"
  using replaceAll_splice_gen[of m r s "[]"] by simp

section \<open>The JavaScript minifier\<close>

lemma urlAhead_followed: "urlAhead s \<longleftrightarrow> followedByUrlOnLine s"
proof (induction s)
  case Nil
  then show ?case by (simp add: followedByUrlOnLine_def)
next
  case (Cons c cs)
  show ?case
  proof
    assume "urlAhead (c # cs)"
    then consider "prefix ''http:'' (c # cs) \<or> prefix ''https:'' (c # cs)"
      | "c \<noteq> CHR 0x0A" "urlAhead cs"
      by auto
    then show "followedByUrlOnLine (c # cs)"
    proof cases
      case 1
      then have "c # cs = [] @ (c # cs) \<and> CHR 0x0A \<notin> set []
          \<and> (prefix ''http:'' (c # cs) \<or> prefix ''https:'' (c # cs))"
        by simp
      then show ?thesis unfolding followedByUrlOnLine_def by blast
    next
      case 2
      with Cons obtain a b where "cs = a @ b" "CHR 0x0A \<notin> set a"
        "prefix ''http:'' b \<or> prefix ''https:'' b"
        by (auto simp: followedByUrlOnLine_def)
      with 2 have "c # cs = (c # a) @ b \<and> CHR 0x0A \<notin> set (c # a)
          \<and> (prefix ''http:'' b \<or> prefix ''https:'' b)"
        by auto
      then show ?thesis unfolding followedByUrlOnLine_def by blast
    qed
  next
    assume "followedByUrlOnLine (c # cs)"
    then obtain a b where ab: "c # cs = a @ b" "CHR 0x0A \<notin> set a"
      "prefix ''http:'' b \<or> prefix ''https:'' b"
      by (auto simp: followedByUrlOnLine_def)
    show "urlAhead (c # cs)"
    proof (cases a)
      case Nil
      with ab show ?thesis by auto
    next
      case (Cons x a')
      with ab have "cs = a' @ b" "CHR 0x0A \<notin> set a'" "c \<noteq> CHR 0x0A" by auto
      with ab(3) have "followedByUrlOnLine cs" unfolding followedByUrlOnLine_def by blast
      with Cons.IH \<open>c \<noteq> CHR 0x0A\<close> show ?thesis by simp
    qed
  qed
qed

lemma lineComment_Some:
  "lineComment s = Some n \<Longrightarrow> take 2 s = ''//'' \<and> \<not> urlAhead (drop 2 s)"
  by (auto simp: lineComment_def split: list.splits if_splits)

text \<open>
  C1. On the line \<open>const url = "https://example.com"; // real comment\<close> the minifier
  does not keep the string literal: the first \<open>//\<close> of the line is the one inside the
  literal, no \<open>http:\<close> or \<open>https:\<close> comes behind it, so the line-comment pass removes
  everything from there to the end of the line, and the result is \<open>const url="https:\<close>.
\<close>

theorem minifyJSContent_truncates_url_literal:
  \<open>minifyJSContent ''const url = "https://example.com"; // real comment''
     = ''const url="https:''\<close>
  by (simp add: minifyJSContent_def lineComment_def blockComment_def whitespaceRun_def
      spacedChar_def group1_def jsPunctuation_def trim_def isSpace_def)

text \<open>
  C2. A line-comment marker \<open>//\<close> at index \<open>i\<close> of the text that is followed later on the
  same line by \<open>http:\<close> or \<open>https:\<close> is not the start of a span that the line-comment
  pass removes.
\<close>

theorem line_comment_pass_keeps_url_markers:
  assumes "take 2 (drop i js) = ''//''"
    and "followedByUrlOnLine (drop (i + 2) js)"
  shows "\<forall>n. (i, n) \<notin> set (allMatches lineComment 0 js)"
proof (intro allI notI)
  fix n
  assume "(i, n) \<in> set (allMatches lineComment 0 js)"
  then obtain k where "i = 0 + k" "lineComment (drop k js) = Some n"
    using allMatches_member by blast
  then have "\<not> urlAhead (drop 2 (drop i js))"
    using lineComment_Some by fastforce
  with assms(2) show False
    by (simp add: urlAhead_followed add.commute)
qed

theorem line_comment_pass_keeps_url_markers_witness:
  "take 2 (drop 2 ''x // see http://a'') = ''//''
   \<and> followedByUrlOnLine (drop (2 + 2) ''x // see http://a'')
   \<and> (\<forall>n. (2, n) \<notin> set (allMatches lineComment 0 ''x // see http://a''))"
proof -
  have h1: "take 2 (drop 2 ''x // see http://a'') = ''//''" by simp
  have h2: "followedByUrlOnLine (drop (2 + 2) ''x // see http://a'')"
    by (simp add: urlAhead_followed [symmetric])
  show ?thesis
    using h1 h2 line_comment_pass_keeps_url_markers [OF h1 h2] by blast
qed

section \<open>The critical-CSS extractor\<close>

lemma escapeSelector_Nil: "escapeSelector [] = []"
  by (simp add: escapeSelector_def metaChar_def)

lemma escapeSelector_Cons:
  "escapeSelector (c # cs) =
     (if c \<in> set (''.*+?^${}()|[]'' @ [CHR 0x5C]) then CHR 0x5C # c # escapeSelector cs
      else c # escapeSelector cs)"
  by (simp add: escapeSelector_def metaChar_def)

lemma patternLiteral_plain:
  "c \<noteq> CHR 0x5C \<Longrightarrow> patternLiteral (c # cs) = c # patternLiteral cs"
  by (cases cs) simp_all

text \<open>The pattern built from an escaped selector matches the selector as a literal text.\<close>

lemma patternLiteral_escapeSelector: "patternLiteral (escapeSelector s) = s"
proof (induction s)
  case Nil
  show ?case by (simp add: escapeSelector_Nil)
next
  case (Cons c cs)
  show ?case
  proof (cases "c \<in> set (''.*+?^${}()|[]'' @ [CHR 0x5C])")
    case True
    then have "escapeSelector (c # cs) = CHR 0x5C # c # escapeSelector cs"
      by (simp only: escapeSelector_Cons if_True)
    with Cons show ?thesis by simp
  next
    case False
    then have "escapeSelector (c # cs) = c # escapeSelector cs"
      by (simp only: escapeSelector_Cons if_False)
    moreover from False have "c \<noteq> CHR 0x5C" by auto
    ultimately show ?thesis using Cons by (simp add: patternLiteral_plain)
  qed
qed

lemma selectorRegex_escapeSelector:
  "selectorRegex (escapeSelector selector) = ruleBlock selector"
  by (rule ext) (simp add: selectorRegex_def patternLiteral_escapeSelector)

lemma selectorRegex_root: "selectorRegex (escapeSelector '':root'') = rootRegex"
  by (simp add: selectorRegex_escapeSelector rootRegex_def)

lemma appendMatches_matchAll:
  "appendMatches acc (matchAll m s) = acc @ concat (matchTexts m s)"
  by (cases "matchTexts m s") (simp_all add: appendMatches_def matchAll_def)

lemma foldl_appendMatches:
  "foldl (\<lambda>criticalCSS selector. appendMatches criticalCSS (matchAll (f selector) s)) acc sels
     = acc @ concat (map (\<lambda>selector. concat (matchTexts (f selector) s)) sels)"
  by (induction sels arbitrary: acc) (simp_all add: appendMatches_matchAll)

lemma concat_map_concat:
  "concat (map (\<lambda>x. concat (f x)) xs) = concat (concat (map f xs))"
  by (induction xs) simp_all

lemma criticalCSSText_blocks: "criticalCSSText fullCSS = concat (criticalBlocks fullCSS)"
  unfolding criticalCSSText_def criticalBlocks_def
  by (subst foldl_appendMatches) (simp add: appendMatches_matchAll concat_map_concat)

lemma matchTexts_sublist: "b \<in> set (matchTexts m s) \<Longrightarrow> sublist b s"
proof -
  assume "b \<in> set (matchTexts m s)"
  then obtain p n where "b = take n (drop p s)" by (auto simp: matchTexts_def)
  then have "s = take p s @ b @ drop n (drop p s)"
    by (simp only: append_take_drop_id)
  then show ?thesis unfolding sublist_def by blast
qed

text \<open>
  C5. The output of the extractor is the concatenation of the emitted rule blocks, and
  every emitted block is a contiguous part of the input.
\<close>

theorem critical_css_containment:
  "criticalCSSText fullCSS = concat (criticalBlocks fullCSS)
   \<and> (\<forall>b\<in>set (criticalBlocks fullCSS). sublist b fullCSS)"
proof
  show "criticalCSSText fullCSS = concat (criticalBlocks fullCSS)"
    by (rule criticalCSSText_blocks)
  show "\<forall>b\<in>set (criticalBlocks fullCSS). sublist b fullCSS"
    by (auto simp: criticalBlocks_def dest: matchTexts_sublist)
qed

theorem critical_css_containment_witness:
  "''.logo{d:e}'' \<in> set (criticalBlocks '':root{--a:1}.logo{d:e}'')
   \<and> sublist ''.logo{d:e}'' '':root{--a:1}.logo{d:e}''"
proof -
  have h: "''.logo{d:e}'' \<in> set (criticalBlocks '':root{--a:1}.logo{d:e}'')"
    by (simp add: criticalBlocks_def criticalSelectors_def selectorRegex_escapeSelector
        matchTexts_def ruleBlock_def rootRegex_def isSpace_def)
  with critical_css_containment [of "'':root{--a:1}.logo{d:e}''"] show ?thesis by blast
qed

text \<open>
  C10. The \<open>:root\<close> blocks are emitted twice: by the first pass, and again at the head
  of the pass over the selector list, whose first entry is \<open>:root\<close>; so every \<open>:root\<close>
  block of the input occurs at least twice among the emitted blocks.
\<close>

theorem root_blocks_emitted_twice:
  "criticalCSSText fullCSS =
     concat (matchTexts rootRegex fullCSS) @ concat (matchTexts rootRegex fullCSS)
     @ concat (map (\<lambda>selector.
                      concat (matchTexts (selectorRegex (escapeSelector selector)) fullCSS))
                (tl criticalSelectors))
   \<and> (\<forall>b\<in>set (matchTexts rootRegex fullCSS). 2 \<le> count_list (criticalBlocks fullCSS) b)"
proof
  have sel: "criticalSelectors = '':root'' # tl criticalSelectors"
    by (simp add: criticalSelectors_def)
  have "criticalCSSText fullCSS =
     concat (matchTexts rootRegex fullCSS)
     @ concat (map (\<lambda>selector.
                      concat (matchTexts (selectorRegex (escapeSelector selector)) fullCSS))
                ('':root'' # tl criticalSelectors))"
    unfolding criticalCSSText_def
    by (subst foldl_appendMatches, subst sel [symmetric]) (simp add: appendMatches_matchAll)
  then show "criticalCSSText fullCSS =
     concat (matchTexts rootRegex fullCSS) @ concat (matchTexts rootRegex fullCSS)
     @ concat (map (\<lambda>selector.
                      concat (matchTexts (selectorRegex (escapeSelector selector)) fullCSS))
                (tl criticalSelectors))"
    by (simp add: selectorRegex_root)
  have "criticalBlocks fullCSS =
     matchTexts rootRegex fullCSS
     @ concat (map (\<lambda>selector. matchTexts (selectorRegex (escapeSelector selector)) fullCSS)
                ('':root'' # tl criticalSelectors))"
    using sel by (simp add: criticalBlocks_def)
  then have blocks: "criticalBlocks fullCSS =
     matchTexts rootRegex fullCSS @ matchTexts rootRegex fullCSS
     @ concat (map (\<lambda>selector. matchTexts (selectorRegex (escapeSelector selector)) fullCSS)
                (tl criticalSelectors))"
    by (simp add: selectorRegex_root)
  show "\<forall>b\<in>set (matchTexts rootRegex fullCSS). 2 \<le> count_list (criticalBlocks fullCSS) b"
  proof
    fix b assume "b \<in> set (matchTexts rootRegex fullCSS)"
    then have "count_list (matchTexts rootRegex fullCSS) b \<noteq> 0"
      by (simp add: count_list_0_iff)
    then have "1 \<le> count_list (matchTexts rootRegex fullCSS) b"
      by simp
    then show "2 \<le> count_list (criticalBlocks fullCSS) b"
      by (simp add: blocks)
  qed
qed

theorem root_blocks_emitted_twice_witness:
  "'':root{--a:1}'' \<in> set (matchTexts rootRegex '':root{--a:1}.logo{d:e}'')
   \<and> 2 \<le> count_list (criticalBlocks '':root{--a:1}.logo{d:e}'') '':root{--a:1}''"
proof -
  have h: "'':root{--a:1}'' \<in> set (matchTexts rootRegex '':root{--a:1}.logo{d:e}'')"
    by (simp add: matchTexts_def ruleBlock_def rootRegex_def isSpace_def)
  with root_blocks_emitted_twice [of "'':root{--a:1}.logo{d:e}''"] show ?thesis by blast
qed

section \<open>The asset bundler\<close>

lemma combineFiles_sections:
  assumes "\<forall>file\<in>set files. \<forall>names. fs (pathOf file) \<noteq> Some (Directory names)"
  shows "combineFiles fs combined files =
     Inr (combined @ concat (map (\<lambda>file. fileSection file (fileText fs (pathOf file)))
                              (filter (\<lambda>file. existsSync fs (pathOf file)) files)))"
  using assms
proof (induction files arbitrary: combined)
  case Nil
  show ?case by simp
next
  case (Cons name rest)
  show ?case
  proof (cases "fs (pathOf name)")
    case None
    with Cons show ?thesis by (simp add: existsSync_def)
  next
    case (Some n)
    with Cons.prems obtain content where "n = File content" by (cases n) auto
    with Some Cons show ?thesis
      by (simp add: existsSync_def readFileSync_def fileText_def)
  qed
qed

lemma combineFiles_append:
  "combineFiles fs combined (xs @ ys) =
     (case combineFiles fs combined xs of Inl e \<Rightarrow> Inl e | Inr c \<Rightarrow> combineFiles fs c ys)"
  by (induction xs arbitrary: combined) (simp_all split: sum.splits)

text \<open>
  C6. When no listed path is a directory, the combined text is the concatenation of one
  section per listed file that exists, in the order of the list; a file listed twice
  gives two sections.
\<close>

theorem bundle_sections_in_list_order:
  assumes "\<forall>file\<in>set files. \<forall>names. fs (pathOf file) \<noteq> Some (Directory names)"
  shows "combineFiles fs [] files =
     Inr (concat (map (\<lambda>file. fileSection file (fileText fs (pathOf file)))
                    (filter (\<lambda>file. existsSync fs (pathOf file)) files)))"
  using combineFiles_sections [OF assms, of "[]"] by simp

theorem bundle_sections_in_list_order_witness:
  "combineFiles exampleFiles [] (cssFiles productionBuilder)
      = Inr (''/* css/main.css */\<newline>:root { --c: red; }\<newline>\<newline>''
             @ ''/* css/images.css */\<newline>.logo { width: 1px; }\<newline>\<newline>'')"
proof -
  have h: "\<forall>file\<in>set (cssFiles productionBuilder). \<forall>names.
      exampleFiles (pathOf file) \<noteq> Some (Directory names)"
    by (simp add: productionBuilder_def pathOf_def exampleFiles_def)
  have r: "concat (map (\<lambda>file. fileSection file (fileText exampleFiles (pathOf file)))
                    (filter (\<lambda>file. existsSync exampleFiles (pathOf file))
                       (cssFiles productionBuilder)))
      = ''/* css/main.css */\<newline>:root { --c: red; }\<newline>\<newline>''
        @ ''/* css/images.css */\<newline>.logo { width: 1px; }\<newline>\<newline>''"
    by (simp add: productionBuilder_def pathOf_def exampleFiles_def existsSync_def
        fileText_def fileSection_def)
  from bundle_sections_in_list_order [OF h]
  have "combineFiles exampleFiles [] (cssFiles productionBuilder)
      = Inr (''/* css/main.css */\<newline>:root { --c: red; }\<newline>\<newline>''
             @ ''/* css/images.css */\<newline>.logo { width: 1px; }\<newline>\<newline>'')"
    unfolding r .
  then show ?thesis .
qed

text \<open>
  C7. A listed file that does not exist is passed over: the loop gives what it gives for
  the list without that entry, and it throws nothing when no other entry is a directory.
\<close>

theorem missing_file_is_skipped:
  assumes "fs (pathOf missing) = None"
  shows "combineFiles fs combined (before @ missing # after)
           = combineFiles fs combined (before @ after)
    \<and> ((\<forall>f\<in>set (before @ after). \<forall>names. fs (pathOf f) \<noteq> Some (Directory names))
        \<longrightarrow> (\<exists>out. combineFiles fs combined (before @ missing # after) = Inr out))"
proof
  show eq: "combineFiles fs combined (before @ missing # after)
      = combineFiles fs combined (before @ after)"
    using assms by (simp add: combineFiles_append existsSync_def split: sum.splits)
  show "(\<forall>f\<in>set (before @ after). \<forall>names. fs (pathOf f) \<noteq> Some (Directory names))
        \<longrightarrow> (\<exists>out. combineFiles fs combined (before @ missing # after) = Inr out)"
    using combineFiles_sections [of "before @ after" fs combined] eq by simp
qed

theorem missing_file_is_skipped_witness:
  "exampleFiles (pathOf ''css/components.css'') = None
   \<and> combineFiles exampleFiles []
        ([''css/main.css''] @ ''css/components.css'' # [''css/images.css''])
      = combineFiles exampleFiles [] ([''css/main.css''] @ [''css/images.css''])
   \<and> (\<exists>out. combineFiles exampleFiles []
        ([''css/main.css''] @ ''css/components.css'' # [''css/images.css'']) = Inr out)"
proof -
  have h1: "exampleFiles (pathOf ''css/components.css'') = None"
    by (simp add: pathOf_def exampleFiles_def)
  have h2: "\<forall>f\<in>set ([''css/main.css''] @ [''css/images.css'']). \<forall>names.
        exampleFiles (pathOf f) \<noteq> Some (Directory names)"
    by (simp add: pathOf_def exampleFiles_def)
  show ?thesis
    using h1 h2
      missing_file_is_skipped [where fs = exampleFiles and missing = "''css/components.css''"
        and combined = "[]" and before = "[''css/main.css'']" and after = "[''css/images.css'']",
        OF h1]
    by blast
qed

section \<open>The HTML rewriter\<close>

lemma indexOf_None_iff: "indexOf pat s = None \<longleftrightarrow> \<not> sublist pat s"
  by (induction s) (auto simp: sublist_Cons_right)

lemma replaceFirst_absent: "\<not> sublist pat s \<Longrightarrow> replaceFirst pat template s = s"
  by (simp add: replaceFirst_def indexOf_None_iff [symmetric])






lemma replaceAll_match:
  "m (c # cs) = Some (Suc n) \<Longrightarrow> replaceAll m r (c # cs) = r (take (Suc n) (c # cs)) @ replaceAll m r (drop n cs)"
  by simp


















text \<open>
  C8. The rewriter throws nothing of its own: once the two files are read, its outcome is
  that of writing the rewritten text. An insertion whose marker does not occur in the text
  that reaches it leaves that text as it is, and the other steps are applied as usual:
  without \<open></head>\<close> behind the removal of the stylesheet links, neither the style block
  nor the preload link is inserted; without \<open></body>\<close> behind the removal of the script
  lines, no script tag is inserted; without the author meta tag behind these steps, no
  performance block is inserted.
\<close>

theorem missing_marker_is_no_op:
  "(readFileSync fs (pathOf ''index.html'') = Inr html
      \<and> readFileSync fs (pathJoin [outputDir b, ''css'', ''critical.min.css'']) = Inr criticalCSS
     \<longrightarrow> updateHTMLForProduction b fs
          = attempt fs (writeFileSync fs (pathJoin [outputDir b, ''index.html''])
                          (productionHTML criticalCSS html)))
   \<and> (\<not> sublist headClose (removeStylesheetLinks html)
     \<longrightarrow> productionHTML criticalCSS html
          = addPerformanceMeta (addBundledScript (removeScriptLines (removeStylesheetLinks html))))
   \<and> (\<not> sublist bodyClose
            (removeScriptLines (addPreloadLink (inlineCriticalCSS criticalCSS
               (removeStylesheetLinks html))))
     \<longrightarrow> productionHTML criticalCSS html
          = addPerformanceMeta
              (removeScriptLines (addPreloadLink (inlineCriticalCSS criticalCSS
                 (removeStylesheetLinks html)))))
   \<and> (\<not> sublist authorMeta
            (addBundledScript (removeScriptLines (addPreloadLink (inlineCriticalCSS criticalCSS
               (removeStylesheetLinks html)))))
     \<longrightarrow> productionHTML criticalCSS html
          = addBundledScript (removeScriptLines (addPreloadLink (inlineCriticalCSS criticalCSS
               (removeStylesheetLinks html)))))"
proof (intro conjI impI)
  assume "readFileSync fs (pathOf ''index.html'') = Inr html
      \<and> readFileSync fs (pathJoin [outputDir b, ''css'', ''critical.min.css'']) = Inr criticalCSS"
  then show "updateHTMLForProduction b fs
          = attempt fs (writeFileSync fs (pathJoin [outputDir b, ''index.html''])
                          (productionHTML criticalCSS html))"
    by (simp add: updateHTMLForProduction_def)
next
  assume "\<not> sublist headClose (removeStylesheetLinks html)"
  then show "productionHTML criticalCSS html
          = addPerformanceMeta (addBundledScript (removeScriptLines (removeStylesheetLinks html)))"
    by (simp add: productionHTML_def inlineCriticalCSS_def addPreloadLink_def replaceFirst_absent)
next
  assume "\<not> sublist bodyClose
            (removeScriptLines (addPreloadLink (inlineCriticalCSS criticalCSS
               (removeStylesheetLinks html))))"
  then show "productionHTML criticalCSS html
          = addPerformanceMeta
              (removeScriptLines (addPreloadLink (inlineCriticalCSS criticalCSS
                 (removeStylesheetLinks html))))"
    by (simp add: productionHTML_def addBundledScript_def replaceFirst_absent)
next
  assume "\<not> sublist authorMeta
            (addBundledScript (removeScriptLines (addPreloadLink (inlineCriticalCSS criticalCSS
               (removeStylesheetLinks html)))))"
  then show "productionHTML criticalCSS html
          = addBundledScript (removeScriptLines (addPreloadLink (inlineCriticalCSS criticalCSS
               (removeStylesheetLinks html))))"
    by (simp add: productionHTML_def addPerformanceMeta_def replaceFirst_absent)
qed

lemmas rewriter_defs =
  productionHTML_def removeStylesheetLinks_def inlineCriticalCSS_def addPreloadLink_def
  removeScriptLines_def addBundledScript_def addPerformanceMeta_def replaceFirst_def
  stylesheetLink_def scriptLine_def quotedName_def headClose_def bodyClose_def authorMeta_def
  styleTemplate_def preloadTemplate_def scriptTemplate_def metaTemplate_def suffix_to_prefix

lemma headless_steps:
  "removeStylesheetLinks headlessPage
     = ''\<newline><body>\<newline>'' @ ''    '' @ mainScriptTag @ ''\<newline></body>''"
  "addPreloadLink (inlineCriticalCSS ''a{}''
       (''\<newline><body>\<newline>'' @ ''    '' @ mainScriptTag @ ''\<newline></body>''))
     = ''\<newline><body>\<newline>'' @ ''    '' @ mainScriptTag @ ''\<newline></body>''"
  "removeScriptLines (''\<newline><body>\<newline>'' @ ''    '' @ mainScriptTag @ ''\<newline></body>'')
     = ''\<newline><body>\<newline></body>''"
  "addBundledScript ''\<newline><body>\<newline></body>''
     = ''\<newline><body>\<newline>'' @ ''    '' @ bundledScriptTag @ ''\<newline></body>''"
  "addPerformanceMeta (''\<newline><body>\<newline>'' @ ''    '' @ bundledScriptTag @ ''\<newline></body>'')
     = ''\<newline><body>\<newline>'' @ ''    '' @ bundledScriptTag @ ''\<newline></body>''"
  by (simp_all add: rewriter_defs headlessPage_def mainScriptTag_def bundledScriptTag_def)

lemma bodiless_steps:
  "removeStylesheetLinks bodilessPage = bodilessPage"
  "addPreloadLink (inlineCriticalCSS ''a{}'' bodilessPage)
     = ''<head>\<newline>'' @ authorMeta @ ''\<newline>'' @ ''    <style>a{}</style>\<newline>''
       @ preloadTemplate @ ''\<newline><p>x</p>''"
  "removeScriptLines (''<head>\<newline>'' @ authorMeta @ ''\<newline>'' @ ''    <style>a{}</style>\<newline>''
       @ preloadTemplate @ ''\<newline><p>x</p>'')
     = ''<head>\<newline>'' @ authorMeta @ ''\<newline>'' @ ''    <style>a{}</style>\<newline>''
       @ preloadTemplate @ ''\<newline><p>x</p>''"
  "addPerformanceMeta (''<head>\<newline>'' @ authorMeta @ ''\<newline>'' @ ''    <style>a{}</style>\<newline>''
       @ preloadTemplate @ ''\<newline><p>x</p>'')
     = ''<head>\<newline>'' @ metaTemplate @ ''\<newline>'' @ ''    <style>a{}</style>\<newline>''
       @ preloadTemplate @ ''\<newline><p>x</p>''"
  by (simp_all add: rewriter_defs bodilessPage_def)

theorem missing_marker_is_no_op_witness:
  "readFileSync headlessSite (pathOf ''index.html'') = Inr headlessPage
   \<and> readFileSync headlessSite (pathJoin [outputDir productionBuilder, ''css'', ''critical.min.css''])
       = Inr ''a{}''
   \<and> \<not> sublist headClose (removeStylesheetLinks headlessPage)
   \<and> \<not> sublist authorMeta
         (addBundledScript (removeScriptLines (addPreloadLink (inlineCriticalCSS ''a{}''
            (removeStylesheetLinks headlessPage)))))
   \<and> productionHTML ''a{}'' headlessPage
       = ''\<newline><body>\<newline>'' @ ''    '' @ bundledScriptTag @ ''\<newline></body>''
   \<and> updateHTMLForProduction productionBuilder headlessSite
       = Completed (headlessSite
           ([''dist''] \<mapsto> Directory [''css'', ''index.html''],
            [''dist'', ''index.html''] \<mapsto>
              File (''\<newline><body>\<newline>'' @ ''    '' @ bundledScriptTag @ ''\<newline></body>'')))
   \<and> \<not> sublist bodyClose
         (removeScriptLines (addPreloadLink (inlineCriticalCSS ''a{}''
            (removeStylesheetLinks bodilessPage))))
   \<and> productionHTML ''a{}'' bodilessPage
       = ''<head>\<newline>'' @ metaTemplate @ ''\<newline>'' @ ''    <style>a{}</style>\<newline>''
         @ preloadTemplate @ ''\<newline><p>x</p>''"
proof -
  have r1: "readFileSync headlessSite (pathOf ''index.html'') = Inr headlessPage"
    by (simp add: headlessSite_def readFileSync_def pathOf_def)
  have r2: "readFileSync headlessSite (pathJoin [outputDir productionBuilder, ''css'', ''critical.min.css''])
       = Inr ''a{}''"
    by (simp add: headlessSite_def readFileSync_def pathOf_def pathJoin_def productionBuilder_def)
  have h1: "\<not> sublist headClose (removeStylesheetLinks headlessPage)"
    unfolding headless_steps
    by (simp add: headClose_def mainScriptTag_def sublist_Cons_right)
  note a = missing_marker_is_no_op [of headlessSite headlessPage productionBuilder "''a{}''"]
  from a h1 have "productionHTML ''a{}'' headlessPage
       = addPerformanceMeta (addBundledScript (removeScriptLines (removeStylesheetLinks headlessPage)))"
    by blast
  then have e: "productionHTML ''a{}'' headlessPage
       = ''\<newline><body>\<newline>'' @ ''    '' @ bundledScriptTag @ ''\<newline></body>''"
    by (simp only: headless_steps)
  have h3: "\<not> sublist authorMeta
         (addBundledScript (removeScriptLines (addPreloadLink (inlineCriticalCSS ''a{}''
            (removeStylesheetLinks headlessPage)))))"
    unfolding headless_steps
    by (simp add: authorMeta_def bundledScriptTag_def sublist_Cons_right)
  have w: "writeFileSync headlessSite [''dist'', ''index.html'']
             (''\<newline><body>\<newline>'' @ ''    '' @ bundledScriptTag @ ''\<newline></body>'')
           = Inr (headlessSite
           ([''dist''] \<mapsto> Directory [''css'', ''index.html''],
            [''dist'', ''index.html''] \<mapsto>
              File (''\<newline><body>\<newline>'' @ ''    '' @ bundledScriptTag @ ''\<newline></body>'')))"
    by (simp add: writeFileSync_def headlessSite_def)
  have p: "pathJoin [outputDir productionBuilder, ''index.html''] = [''dist'', ''index.html'']"
    by (simp add: pathJoin_def pathOf_def productionBuilder_def)
  from a r1 r2 have "updateHTMLForProduction productionBuilder headlessSite
       = attempt headlessSite (writeFileSync headlessSite
           (pathJoin [outputDir productionBuilder, ''index.html''])
           (productionHTML ''a{}'' headlessPage))"
    by blast
  then have u: "updateHTMLForProduction productionBuilder headlessSite
       = Completed (headlessSite
           ([''dist''] \<mapsto> Directory [''css'', ''index.html''],
            [''dist'', ''index.html''] \<mapsto>
              File (''\<newline><body>\<newline>'' @ ''    '' @ bundledScriptTag @ ''\<newline></body>'')))"
    unfolding e p w attempt_def by simp
  have h2: "\<not> sublist bodyClose
         (removeScriptLines (addPreloadLink (inlineCriticalCSS ''a{}''
            (removeStylesheetLinks bodilessPage))))"
    unfolding bodiless_steps
    by (simp add: bodyClose_def authorMeta_def preloadTemplate_def sublist_Cons_right)
  note b = missing_marker_is_no_op [of headlessSite bodilessPage productionBuilder "''a{}''"]
  from b h2 have "productionHTML ''a{}'' bodilessPage
       = addPerformanceMeta (removeScriptLines (addPreloadLink (inlineCriticalCSS ''a{}''
            (removeStylesheetLinks bodilessPage))))"
    by blast
  then have e2: "productionHTML ''a{}'' bodilessPage
       = ''<head>\<newline>'' @ metaTemplate @ ''\<newline>'' @ ''    <style>a{}</style>\<newline>''
         @ preloadTemplate @ ''\<newline><p>x</p>''"
    by (simp only: bodiless_steps)
  from r1 r2 h1 h3 e u h2 e2 show ?thesis by blast
qed

text \<open>
  The marker can be absent from the source document and still reach its step: here the
  removal of a stylesheet link joins \<open></he\<close> and \<open>ad>\<close>, and the style block and the
  preload link are inserted.
\<close>

theorem marker_created_by_link_removal:
  \<open>\<not> sublist headClose ''</he<link rel="stylesheet" href="css/a.css">ad>''
   \<and> productionHTML ''X'' ''</he<link rel="stylesheet" href="css/a.css">ad>''
       = ''    <style>X</style>\<newline>'' @ preloadTemplate\<close>
  by (simp add: rewriter_defs sublist_Cons_right)










































section \<open>The files before and after a stage\<close>

lemma andThen_Completed_iff:
  "andThen r f = Completed fs' \<longleftrightarrow> (\<exists>fsa. r = Completed fsa \<and> f fsa = Completed fs')"
  by (cases r) (auto simp: andThen_def)

lemma attempt_Completed_iff: "attempt fs r = Completed fs' \<longleftrightarrow> r = Inr fs'"
  by (cases r) (auto simp: attempt_def)

lemma grows_refl: "grows fs fs"
  by (simp add: grows_def)

lemma grows_trans: "grows fs fs' \<Longrightarrow> grows fs' fs'' \<Longrightarrow> grows fs fs''"
  unfolding grows_def by (meson subset_trans)

lemma grows_exists: "grows fs fs' \<Longrightarrow> fs p \<noteq> None \<Longrightarrow> fs' p \<noteq> None"
proof -
  assume g: "grows fs fs'" and "fs p \<noteq> None"
  then obtain n where n: "fs p = Some n" by auto
  show ?thesis
  proof (cases n)
    case (File c)
    with g n show ?thesis unfolding grows_def by fastforce
  next
    case (Directory ns)
    with g n show ?thesis unfolding grows_def by fastforce
  qed
qed

lemma grows_member:
  "grows fs fs' \<Longrightarrow> fs p = Some (Directory ns) \<Longrightarrow> x \<in> set ns
   \<Longrightarrow> \<exists>ns'. fs' p = Some (Directory ns') \<and> x \<in> set ns'"
  unfolding grows_def by blast

lemma writeFileSync_Inr:
  assumes "writeFileSync fs q c = Inr fs'"
  shows "q \<noteq> []" and "fs' q = Some (File c)"
    and "\<exists>ns. fs' (butlast q) = Some (Directory ns) \<and> last q \<in> set ns"
    and "\<And>p. p \<noteq> q \<Longrightarrow> p \<noteq> butlast q \<Longrightarrow> fs' p = fs p"
    and "grows fs fs'"
proof -
  from assms show ne: "q \<noteq> []" by (auto simp: writeFileSync_def split: if_splits)
  then have neq: "butlast q \<noteq> q" by (metis append_butlast_last_id append_self_conv not_Cons_self2)
  from assms ne obtain names where
    par: "fs (butlast q) = Some (Directory names)" and
    nd: "\<forall>ns. fs q \<noteq> Some (Directory ns)" and
    fs': "fs' = fs(butlast q \<mapsto> Directory (if last q \<in> set names then names else names @ [last q]),
                 q \<mapsto> File c)"
    by (auto simp: writeFileSync_def split: if_splits option.splits node.splits)
  from fs' show "fs' q = Some (File c)" by simp
  from fs' neq show "\<exists>ns. fs' (butlast q) = Some (Directory ns) \<and> last q \<in> set ns" by auto
  from fs' show "\<And>p. p \<noteq> q \<Longrightarrow> p \<noteq> butlast q \<Longrightarrow> fs' p = fs p" by simp
  show "grows fs fs'"
    unfolding grows_def
  proof (intro allI conjI impI)
    fix p c' assume "fs p = Some (File c')"
    with par fs' show "\<exists>c''. fs' p = Some (File c'')" by (cases "p = q") auto
  next
    fix p ns assume "fs p = Some (Directory ns)"
    with par nd fs' neq show "\<exists>ns'. fs' p = Some (Directory ns') \<and> set ns \<subseteq> set ns'"
      by (cases "p = q"; cases "p = butlast q") auto
  qed
qed

lemma writeFileSync_fixpoint:
  assumes "q \<noteq> []" and "G q = Some (File c)" and "G (butlast q) = Some (Directory ns)"
    and "last q \<in> set ns"
  shows "writeFileSync G q c = Inr G"
proof -
  have "G(butlast q \<mapsto> Directory ns, q \<mapsto> File c) = G"
    using assms(2,3) by (simp add: map_upd_triv)
  with assms show ?thesis by (simp add: writeFileSync_def)
qed

lemma mkdirFrom_frame:
  "mkdirFrom fs base names = Inr fs' \<Longrightarrow> \<not> prefix p (base @ names) \<Longrightarrow> fs' p = fs p"
proof (induction names arbitrary: fs base)
  case Nil
  then show ?case by simp
next
  case (Cons name rest)
  have np: "p \<noteq> base" "p \<noteq> base @ [name]"
    using Cons.prems(2) by (auto simp: prefix_def)
  have np': "\<not> prefix p ((base @ [name]) @ rest)" using Cons.prems(2) by simp
  show ?case
  proof (cases "fs (base @ [name])")
    case None
    with Cons.prems(1) obtain names where b: "fs base = Some (Directory names)"
      and r: "mkdirFrom (fs(base \<mapsto> Directory (names @ [name]), base @ [name] \<mapsto> Directory []))
                (base @ [name]) rest = Inr fs'"
      by (auto split: option.splits node.splits)
    from Cons.IH [OF r np'] np show ?thesis by simp
  next
    case (Some n)
    with Cons.prems(1) have "mkdirFrom fs (base @ [name]) rest = Inr fs'"
      by (cases n) auto
    from Cons.IH [OF this np'] show ?thesis .
  qed
qed

lemma mkdirFrom_grows: "mkdirFrom fs base names = Inr fs' \<Longrightarrow> grows fs fs'"
proof (induction names arbitrary: fs base)
  case Nil
  then show ?case by (simp add: grows_refl)
next
  case (Cons name rest)
  show ?case
  proof (cases "fs (base @ [name])")
    case None
    with Cons.prems obtain names where b: "fs base = Some (Directory names)"
      and r: "mkdirFrom (fs(base \<mapsto> Directory (names @ [name]), base @ [name] \<mapsto> Directory []))
                (base @ [name]) rest = Inr fs'"
      by (auto split: option.splits node.splits)
    have "grows fs (fs(base \<mapsto> Directory (names @ [name]), base @ [name] \<mapsto> Directory []))"
      using None b unfolding grows_def by auto
    with Cons.IH [OF r] show ?thesis by (blast intro: grows_trans)
  next
    case (Some n)
    with Cons.prems have "mkdirFrom fs (base @ [name]) rest = Inr fs'"
      by (cases n) auto
    from Cons.IH [OF this] show ?thesis .
  qed
qed

lemma mkdirFrom_exists:
  "mkdirFrom fs base names = Inr fs' \<Longrightarrow> names \<noteq> [] \<Longrightarrow> fs' (base @ names) \<noteq> None"
proof (induction names arbitrary: fs base)
  case Nil
  then show ?case by simp
next
  case (Cons name rest)
  show ?case
  proof (cases "fs (base @ [name])")
    case None
    with Cons.prems obtain names where b: "fs base = Some (Directory names)"
      and r: "mkdirFrom (fs(base \<mapsto> Directory (names @ [name]), base @ [name] \<mapsto> Directory []))
                (base @ [name]) rest = Inr fs'"
      by (auto split: option.splits node.splits)
    show ?thesis
    proof (cases rest)
      case Nil
      with r show ?thesis by auto
    next
      case (Cons a list)
      with Cons.IH [OF r] show ?thesis by simp
    qed
  next
    case (Some n)
    with Cons.prems have r: "mkdirFrom fs (base @ [name]) rest = Inr fs'"
      by (cases n) auto
    show ?thesis
    proof (cases rest)
      case Nil
      with r Some show ?thesis by auto
    next
      case (Cons a list)
      with Cons.IH [OF r] show ?thesis by simp
    qed
  qed
qed

lemma ensureDirectory_Completed:
  assumes "ensureDirectory d fs = Completed fs'"
  shows "grows fs fs'" and "\<And>p. \<not> prefix p d \<Longrightarrow> fs' p = fs p" and "d \<noteq> [] \<Longrightarrow> fs' d \<noteq> None"
proof -
  show "grows fs fs'"
    using assms mkdirFrom_grows [of fs "[]" d fs']
    by (auto simp: ensureDirectory_def mkdirSync_def attempt_Completed_iff grows_refl split: if_splits)
  show "\<And>p. \<not> prefix p d \<Longrightarrow> fs' p = fs p"
    using assms mkdirFrom_frame [of fs "[]" d fs']
    by (auto simp: ensureDirectory_def mkdirSync_def attempt_Completed_iff split: if_splits)
  show "d \<noteq> [] \<Longrightarrow> fs' d \<noteq> None"
    using assms mkdirFrom_exists [of fs "[]" d fs']
    by (auto simp: ensureDirectory_def mkdirSync_def attempt_Completed_iff existsSync_def split: if_splits)
qed

lemma ensureDirectory_fixpoint: "G d \<noteq> None \<Longrightarrow> ensureDirectory d G = Completed G"
  by (simp add: ensureDirectory_def existsSync_def)

lemma copyItems_Cons:
  "copyItems k src dest (item # items) fs
     = andThen (copyItem k src dest item fs) (copyItems k src dest items)"
  by (simp add: copyItem_def)

lemma mirrors_Suc:
  "mirrors (Suc k) G src dest \<longleftrightarrow>
     G dest \<noteq> None \<and> (\<exists>items. G src = Some (Directory items)
        \<and> (\<forall>item\<in>set items. itemMirrored k G src dest item))"
proof (cases "G src")
  case None
  then show ?thesis by simp
next
  case (Some n)
  then show ?thesis by (cases n) (simp_all add: itemMirrored_def)
qed

lemma snoc_not_prefix:
  assumes "\<not> prefix xs ys"
  shows "\<not> prefix (xs @ [i]) (ys @ [i])"
proof
  assume "prefix (xs @ [i]) (ys @ [i])"
  then consider "xs @ [i] = ys @ [i]" | "prefix (xs @ [i]) ys" by auto
  then show False
  proof cases
    case 1
    with assms show False by simp
  next
    case 2
    then have "prefix xs ys" by (rule append_prefixD)
    with assms show False by simp
  qed
qed

lemma apart_snoc:
  assumes "apart src dest"
  shows "apart (src @ [i]) (dest @ [i])"
proof -
  from assms have a: "\<not> prefix src dest" "\<not> prefix dest src"
    by (simp_all add: apart_def)
  have "\<not> prefix (src @ [i]) (dest @ [i])" using a(1) by (rule snoc_not_prefix)
  moreover have "\<not> prefix (dest @ [i]) (src @ [i])" using a(2) by (rule snoc_not_prefix)
  ultimately show ?thesis unfolding apart_def by (rule conjI)
qed

lemma apart_under:
  "apart src dest \<Longrightarrow> prefix src p \<Longrightarrow> \<not> prefix dest p \<and> \<not> prefix p dest"
  unfolding apart_def by (meson prefix_order.trans prefix_same_cases)

lemma apart_under_item:
  assumes "apart src dest" and "prefix src p"
  shows "\<not> prefix (dest @ [j]) p \<and> \<not> prefix p (dest @ [j])"
proof -
  from apart_under [OF assms] have a: "\<not> prefix dest p" "\<not> prefix p dest" by auto
  from a(1) have "\<not> prefix (dest @ [j]) p" by (meson prefix_order.trans prefixI)
  moreover from a have "\<not> prefix p (dest @ [j])" by auto
  ultimately show ?thesis by simp
qed

lemma other_item_apart:
  assumes "i \<noteq> j" and "prefix (dest @ [i]) p"
  shows "\<not> prefix (dest @ [j]) p \<and> \<not> prefix p (dest @ [j])"
proof -
  from assms(2) obtain r where p: "p = dest @ i # r" by (auto simp: prefix_def)
  with assms(1) show ?thesis by (auto simp: prefix_def)
qed

lemma frame_item_to_dir:
  assumes "\<not> prefix dest p" and "\<not> prefix p dest"
  shows "\<not> prefix (dest @ [j]) p \<and> \<not> prefix p (dest @ [j])"
proof -
  from assms(1) have "\<not> prefix (dest @ [j]) p" by (meson prefix_order.trans prefixI)
  moreover from assms have "\<not> prefix p (dest @ [j])" by auto
  ultimately show ?thesis by simp
qed

lemma copy_frame:
  "copyDirectory k src dest fs = Completed fs'
     \<longrightarrow> grows fs fs' \<and> (\<forall>p. \<not> prefix dest p \<longrightarrow> \<not> prefix p dest \<longrightarrow> fs' p = fs p)"
  "copyItems k src dest items fs = Completed fs'
     \<longrightarrow> grows fs fs' \<and> (\<forall>p. \<not> prefix dest p \<longrightarrow> \<not> prefix p dest \<longrightarrow> fs' p = fs p)"
proof (induction k src dest fs and k src dest items fs arbitrary: fs' and fs'
    rule: copyDirectory_copyItems.induct)
  case (1 src dest fs)
  show ?case by simp
next
  case (2 fuel src dest fs)
  show ?case
  proof
    assume "copyDirectory (Suc fuel) src dest fs = Completed fs'"
    then obtain fsa where a: "ensureDirectory dest fs = Completed fsa"
      and rc: "(case readdirSync fsa src of Inl e \<Rightarrow> Threw e fsa
                | Inr items \<Rightarrow> copyItems fuel src dest items fsa) = Completed fs'"
      by (auto simp: andThen_Completed_iff)
    then obtain items where r: "readdirSync fsa src = Inr items"
      and c: "copyItems fuel src dest items fsa = Completed fs'"
      by (cases "readdirSync fsa src") auto
    from "2.IH" [OF r] c
    have i: "grows fsa fs'" "\<forall>p. \<not> prefix dest p \<longrightarrow> \<not> prefix p dest \<longrightarrow> fs' p = fsa p"
      by auto
    from ensureDirectory_Completed [OF a]
    have e: "grows fs fsa" "\<And>p. \<not> prefix p dest \<Longrightarrow> fsa p = fs p" by auto
    from e(1) i(1) have "grows fs fs'" by (rule grows_trans)
    moreover from e(2) i(2) have "\<forall>p. \<not> prefix dest p \<longrightarrow> \<not> prefix p dest \<longrightarrow> fs' p = fs p"
      by simp
    ultimately show "grows fs fs' \<and> (\<forall>p. \<not> prefix dest p \<longrightarrow> \<not> prefix p dest \<longrightarrow> fs' p = fs p)"
      by simp
  qed
next
  case (3 fuel src dest fs)
  show ?case by (simp add: grows_refl)
next
  case (4 fuel src dest item items fs)
  show ?case
  proof
    assume "copyItems fuel src dest (item # items) fs = Completed fs'"
    then obtain fsa where a: "copyItem fuel src dest item fs = Completed fsa"
      and c: "copyItems fuel src dest items fsa = Completed fs'"
      by (auto simp only: copyItems_Cons andThen_Completed_iff)
    from "4.IH"(2) c
    have i: "grows fsa fs'" "\<forall>p. \<not> prefix dest p \<longrightarrow> \<not> prefix p dest \<longrightarrow> fs' p = fsa p"
      by auto
    have s: "grows fs fsa \<and> (\<forall>p. \<not> prefix dest p \<longrightarrow> \<not> prefix p dest \<longrightarrow> fsa p = fs p)"
    proof (cases "isDirectory fs (src @ [item])")
      case (Inl e)
      with a show ?thesis by (simp add: copyItem_def)
    next
      case (Inr b)
      show ?thesis
      proof (cases b)
        case True
        then have bt: "b = True" by simp
        with Inr a have "copyDirectory fuel (src @ [item]) (dest @ [item]) fs = Completed fsa"
          by (simp add: copyItem_def)
        with "4.IH"(1) [OF Inr bt]
        have g: "grows fs fsa"
          and f: "\<forall>p. \<not> prefix (dest @ [item]) p \<longrightarrow> \<not> prefix p (dest @ [item]) \<longrightarrow> fsa p = fs p"
          by auto
        have "\<forall>p. \<not> prefix dest p \<longrightarrow> \<not> prefix p dest \<longrightarrow> fsa p = fs p"
        proof (intro allI impI)
          fix p assume "\<not> prefix dest p" "\<not> prefix p dest"
          from frame_item_to_dir [OF this] f show "fsa p = fs p" by blast
        qed
        with g show ?thesis by simp
      next
        case False
        with Inr a obtain content where
          w: "writeFileSync fs (dest @ [item]) content = Inr fsa"
          by (auto simp: copyItem_def attempt_Completed_iff copyFileSync_def split: sum.splits)
        from writeFileSync_Inr(5) [OF w] have g: "grows fs fsa" .
        have "\<forall>p. \<not> prefix dest p \<longrightarrow> \<not> prefix p dest \<longrightarrow> fsa p = fs p"
        proof (intro allI impI)
          fix p assume n: "\<not> prefix dest p" "\<not> prefix p dest"
          from n(1) have "p \<noteq> dest @ [item]" by auto
          moreover from n(1) have "p \<noteq> butlast (dest @ [item])" by auto
          ultimately show "fsa p = fs p" using writeFileSync_Inr(4) [OF w] by blast
        qed
        with g show ?thesis by simp
      qed
    qed
    from s i(1) have "grows fs fs'" using grows_trans by blast
    moreover from s i(2) have "\<forall>p. \<not> prefix dest p \<longrightarrow> \<not> prefix p dest \<longrightarrow> fs' p = fs p"
      by simp
    ultimately show "grows fs fs' \<and> (\<forall>p. \<not> prefix dest p \<longrightarrow> \<not> prefix p dest \<longrightarrow> fs' p = fs p)"
      by simp
  qed
qed

lemma copyDirectory_frame:
  assumes "copyDirectory k src dest fs = Completed fs'"
  shows "grows fs fs'" and "\<And>p. \<not> prefix dest p \<Longrightarrow> \<not> prefix p dest \<Longrightarrow> fs' p = fs p"
  using copy_frame(1) [of k src dest fs fs'] assms by auto

lemma copyItems_frame:
  assumes "copyItems k src dest items fs = Completed fs'"
  shows "grows fs fs'" and "\<And>p. \<not> prefix dest p \<Longrightarrow> \<not> prefix p dest \<Longrightarrow> fs' p = fs p"
  using copy_frame(2) [of k src dest items fs fs'] assms by auto

lemma copyItem_file:
  assumes "copyItem k src dest item fs = Completed fsa"
    and "fs (src @ [item]) = Some (File content)"
  shows "writeFileSync fs (dest @ [item]) content = Inr fsa"
  using assms
  by (simp add: copyItem_def isDirectory_def attempt_Completed_iff copyFileSync_def
      readFileSync_def)

lemma copyItem_directory:
  assumes "copyItem k src dest item fs = Completed fsa"
    and "fs (src @ [item]) = Some (Directory ns)"
  shows "copyDirectory k (src @ [item]) (dest @ [item]) fs = Completed fsa"
  using assms by (simp add: copyItem_def isDirectory_def)

lemma copyItem_exists:
  assumes "copyItem k src dest item fs = Completed fsa"
  shows "fs (src @ [item]) \<noteq> None"
  using assms by (cases "fs (src @ [item])") (auto simp: copyItem_def isDirectory_def)

lemma copyItem_frame:
  assumes "copyItem k src dest item fs = Completed fsa"
  shows "grows fs fsa"
    and "\<And>p. \<not> prefix (dest @ [item]) p \<Longrightarrow> \<not> prefix p (dest @ [item]) \<Longrightarrow> fsa p = fs p"
proof -
  from copyItem_exists [OF assms] obtain n where n: "fs (src @ [item]) = Some n" by auto
  show "grows fs fsa"
  proof (cases n)
    case (File content)
    from copyItem_file [OF assms] n File show ?thesis using writeFileSync_Inr(5) by blast
  next
    case (Directory ns)
    from copyItem_directory [OF assms] n Directory show ?thesis
      using copyDirectory_frame(1) by blast
  qed
  fix p assume np: "\<not> prefix (dest @ [item]) p" "\<not> prefix p (dest @ [item])"
  show "fsa p = fs p"
  proof (cases n)
    case (File content)
    with n copyItem_file [OF assms] have w: "writeFileSync fs (dest @ [item]) content = Inr fsa"
      by blast
    from np(1) have "p \<noteq> dest @ [item]" by auto
    moreover from np(2) have "p \<noteq> butlast (dest @ [item])" by auto
    ultimately show ?thesis using writeFileSync_Inr(4) [OF w] by blast
  next
    case (Directory ns)
    with n copyItem_directory [OF assms]
    have "copyDirectory k (src @ [item]) (dest @ [item]) fs = Completed fsa" by blast
    from copyDirectory_frame(2) [OF this np] show ?thesis .
  qed
qed

lemma mirrors_stable:
  "(\<And>p. prefix src p \<or> prefix dest p \<Longrightarrow> G' p = G p) \<Longrightarrow> mirrors k G src dest
   \<Longrightarrow> mirrors k G' src dest"
proof (induction k arbitrary: src dest)
  case 0
  then show ?case by simp
next
  case (Suc k)
  from Suc.prems(2) [unfolded mirrors_Suc] obtain items where d: "G dest \<noteq> None"
    and s: "G src = Some (Directory items)"
    and m: "\<forall>item\<in>set items. itemMirrored k G src dest item"
    by blast
  have d': "G' dest = G dest" and s': "G' src = G src" using Suc.prems(1) by auto
  have "\<forall>item\<in>set items. itemMirrored k G' src dest item"
  proof
    fix item assume "item \<in> set items"
    with m have im: "itemMirrored k G src dest item" by blast
    have a: "G' (src @ [item]) = G (src @ [item])" "G' (dest @ [item]) = G (dest @ [item])"
      using Suc.prems(1) by auto
    have sub: "\<And>p. prefix (src @ [item]) p \<or> prefix (dest @ [item]) p \<Longrightarrow> G' p = G p"
      using Suc.prems(1) append_prefixD by blast
    show "itemMirrored k G' src dest item"
    proof (cases "G (src @ [item])")
      case None
      with im show ?thesis by (simp add: itemMirrored_def)
    next
      case (Some n)
      show ?thesis
      proof (cases n)
        case (File content)
        with Some im a d' show ?thesis by (simp add: itemMirrored_def)
      next
        case (Directory ns)
        with Some im have "mirrors k G (src @ [item]) (dest @ [item])"
          by (simp add: itemMirrored_def)
        from Suc.IH [OF sub this] Some Directory a show ?thesis
          by (simp add: itemMirrored_def)
      qed
    qed
  qed
  with d s d' s' show ?case unfolding mirrors_Suc by auto
qed

lemma itemMirrored_stable:
  assumes agree: "\<And>p. prefix (src @ [item]) p \<or> prefix (dest @ [item]) p \<Longrightarrow> G' p = G p"
    and g: "grows G G'"
    and im: "itemMirrored k G src dest item"
  shows "itemMirrored k G' src dest item"
proof (cases "G (src @ [item])")
  case None
  with im show ?thesis by (simp add: itemMirrored_def)
next
  case (Some n)
  have a: "G' (src @ [item]) = G (src @ [item])" "G' (dest @ [item]) = G (dest @ [item])"
    using agree by auto
  show ?thesis
  proof (cases n)
    case (File content)
    with Some im obtain ns where "G (dest @ [item]) = Some (File content)"
      "G dest = Some (Directory ns)" "item \<in> set ns"
      by (auto simp: itemMirrored_def)
    with grows_member [OF g this(2,3)] Some File a show ?thesis
      by (auto simp: itemMirrored_def)
  next
    case (Directory ns)
    with Some im have "mirrors k G (src @ [item]) (dest @ [item])"
      by (simp add: itemMirrored_def)
    from mirrors_stable [OF agree this] Some Directory a show ?thesis
      by (simp add: itemMirrored_def)
  qed
qed

lemma andThen_Completed: "andThen (Completed fs) f = f fs"
  by (simp add: andThen_def)

lemma copyItem_replay:
  assumes im: "itemMirrored k G src dest item"
    and IH: "\<And>s d. mirrors k G s d \<Longrightarrow> copyDirectory k s d G = Completed G"
  shows "copyItem k src dest item G = Completed G"
proof (cases "G (src @ [item])")
  case None
  with im show ?thesis by (simp add: itemMirrored_def)
next
  case (Some n)
  show ?thesis
  proof (cases n)
    case (File content)
    with Some im obtain ns where "G (dest @ [item]) = Some (File content)"
      "G dest = Some (Directory ns)" "item \<in> set ns"
      by (auto simp: itemMirrored_def)
    then have "writeFileSync G (dest @ [item]) content = Inr G"
      by (intro writeFileSync_fixpoint [where ns = ns]) simp_all
    with Some File show ?thesis
      by (simp add: copyItem_def isDirectory_def copyFileSync_def readFileSync_def attempt_def)
  next
    case (Directory ns)
    with Some im have "mirrors k G (src @ [item]) (dest @ [item])"
      by (simp add: itemMirrored_def)
    from IH [OF this] Some Directory show ?thesis
      by (simp add: copyItem_def isDirectory_def)
  qed
qed

lemma copyItems_replay:
  assumes "\<forall>item\<in>set items. itemMirrored k G src dest item"
    and IH: "\<And>s d. mirrors k G s d \<Longrightarrow> copyDirectory k s d G = Completed G"
  shows "copyItems k src dest items G = Completed G"
  using assms(1)
proof (induction items)
  case Nil
  show ?case by simp
next
  case (Cons item items)
  then have "copyItem k src dest item G = Completed G"
    using copyItem_replay [OF _ IH] by simp
  with Cons show ?case by (simp only: copyItems_Cons andThen_Completed) simp
qed

lemma copyDirectory_replay:
  "mirrors k G src dest \<Longrightarrow> copyDirectory k src dest G = Completed G"
proof (induction k arbitrary: src dest)
  case 0
  then show ?case by simp
next
  case (Suc k)
  from Suc.prems [unfolded mirrors_Suc] obtain items where d: "G dest \<noteq> None"
    and s: "G src = Some (Directory items)"
    and m: "\<forall>item\<in>set items. itemMirrored k G src dest item"
    by blast
  from m Suc.IH have "copyItems k src dest items G = Completed G"
    by (rule copyItems_replay)
  with d s show ?case
    by (simp add: ensureDirectory_fixpoint andThen_Completed readdirSync_def)
qed

lemma copyItem_mirrored:
  assumes c: "copyItem k src dest item fs = Completed fsa"
    and ap: "apart src dest"
    and IH: "\<And>fs' ns. fs (src @ [item]) = Some (Directory ns)
              \<Longrightarrow> copyDirectory k (src @ [item]) (dest @ [item]) fs = Completed fs'
              \<Longrightarrow> mirrors k fs' (src @ [item]) (dest @ [item])"
  shows "itemMirrored k fsa src dest item"
proof -
  from copyItem_exists [OF c] obtain n where n: "fs (src @ [item]) = Some n" by auto
  have "\<not> prefix (dest @ [item]) (src @ [item]) \<and> \<not> prefix (src @ [item]) (dest @ [item])"
    using apart_under_item [OF ap, of "src @ [item]" item] by simp
  with copyItem_frame(2) [OF c] have same: "fsa (src @ [item]) = fs (src @ [item])" by blast
  show ?thesis
  proof (cases n)
    case (File content)
    with n copyItem_file [OF c] have w: "writeFileSync fs (dest @ [item]) content = Inr fsa"
      by blast
    from writeFileSync_Inr(2,3) [OF w] same n File show ?thesis
      by (simp add: itemMirrored_def)
  next
    case (Directory ns)
    with n copyItem_directory [OF c]
    have "copyDirectory k (src @ [item]) (dest @ [item]) fs = Completed fsa" by blast
    from IH [OF _ this] same n Directory show ?thesis
      by (simp add: itemMirrored_def)
  qed
qed

lemma copyItem_keeps_mirrored:
  assumes c: "copyItem k src dest j fs = Completed fsa"
    and ap: "apart src dest"
    and ij: "i \<noteq> j"
    and im: "itemMirrored k fs src dest i"
  shows "itemMirrored k fsa src dest i"
proof (rule itemMirrored_stable [OF _ copyItem_frame(1) [OF c] im])
  fix p assume "prefix (src @ [i]) p \<or> prefix (dest @ [i]) p"
  then have "\<not> prefix (dest @ [j]) p \<and> \<not> prefix p (dest @ [j])"
  proof
    assume "prefix (src @ [i]) p"
    then have "prefix src p" by (rule append_prefixD)
    with ap show ?thesis by (rule apart_under_item)
  next
    assume "prefix (dest @ [i]) p"
    with ij show ?thesis by (rule other_item_apart)
  qed
  with copyItem_frame(2) [OF c] show "fsa p = fs p" by blast
qed

lemma copy_mirrors:
  "apart src dest \<longrightarrow> copyDirectory k src dest fs = Completed fs'
     \<longrightarrow> mirrors k fs' src dest"
  "apart src dest \<longrightarrow> copyItems k src dest items fs = Completed fs'
     \<longrightarrow> (\<forall>i. itemMirrored k fs src dest i \<longrightarrow> itemMirrored k fs' src dest i)
         \<and> (\<forall>i\<in>set items. itemMirrored k fs' src dest i)"
proof (induction k src dest fs and k src dest items fs arbitrary: fs' and fs'
    rule: copyDirectory_copyItems.induct)
  case (1 src dest fs)
  show ?case by simp
next
  case (2 fuel src dest fs)
  show ?case
  proof (intro impI)
    assume ap: "apart src dest"
    assume "copyDirectory (Suc fuel) src dest fs = Completed fs'"
    then obtain fsa where a: "ensureDirectory dest fs = Completed fsa"
      and rc: "(case readdirSync fsa src of Inl e \<Rightarrow> Threw e fsa
                | Inr items \<Rightarrow> copyItems fuel src dest items fsa) = Completed fs'"
      by (auto simp: andThen_Completed_iff)
    then obtain items where r: "readdirSync fsa src = Inr items"
      and c: "copyItems fuel src dest items fsa = Completed fs'"
      by (cases "readdirSync fsa src") auto
    from r have s: "fsa src = Some (Directory items)"
      by (auto simp: readdirSync_def split: option.splits node.splits)
    from ap have "dest \<noteq> []" by (auto simp: apart_def)
    with ensureDirectory_Completed(3) [OF a] have "fsa dest \<noteq> None" by simp
    with copyItems_frame(1) [OF c] have d: "fs' dest \<noteq> None" by (rule grows_exists)
    from ap have "\<not> prefix dest src \<and> \<not> prefix src dest" by (simp add: apart_def)
    with copyItems_frame(2) [OF c] s have s': "fs' src = Some (Directory items)" by simp
    from "2.IH" [OF r] ap c have "\<forall>i\<in>set items. itemMirrored fuel fs' src dest i" by blast
    with d s' show "mirrors (Suc fuel) fs' src dest" unfolding mirrors_Suc by blast
  qed
next
  case (3 fuel src dest fs)
  show ?case by simp
next
  case (4 fuel src dest item items fs)
  show ?case
  proof (intro impI)
    assume ap: "apart src dest"
    assume "copyItems fuel src dest (item # items) fs = Completed fs'"
    then obtain fsa where a: "copyItem fuel src dest item fs = Completed fsa"
      and c: "copyItems fuel src dest items fsa = Completed fs'"
      by (auto simp only: copyItems_Cons andThen_Completed_iff)
    have dirIH: "\<And>fs'' ns. fs (src @ [item]) = Some (Directory ns)
              \<Longrightarrow> copyDirectory fuel (src @ [item]) (dest @ [item]) fs = Completed fs''
              \<Longrightarrow> mirrors fuel fs'' (src @ [item]) (dest @ [item])"
    proof -
      fix fs'' ns
      assume "fs (src @ [item]) = Some (Directory ns)"
      then have "isDirectory fs (src @ [item]) = Inr True" by (simp add: isDirectory_def)
      moreover assume "copyDirectory fuel (src @ [item]) (dest @ [item]) fs = Completed fs''"
      ultimately show "mirrors fuel fs'' (src @ [item]) (dest @ [item])"
        using "4.IH"(1) [of True fs''] apart_snoc [OF ap] by blast
    qed
    from copyItem_mirrored [OF a ap dirIH] have mj: "itemMirrored fuel fsa src dest item" .
    have keep: "\<forall>i. itemMirrored fuel fs src dest i \<longrightarrow> itemMirrored fuel fsa src dest i"
    proof (intro allI impI)
      fix i assume im: "itemMirrored fuel fs src dest i"
      show "itemMirrored fuel fsa src dest i"
      proof (cases "i = item")
        case True
        with mj show ?thesis by simp
      next
        case False
        from copyItem_keeps_mirrored [OF a ap False im] show ?thesis .
      qed
    qed
    from "4.IH"(2) [of fsa fs'] ap c
    have rest: "\<forall>i. itemMirrored fuel fsa src dest i \<longrightarrow> itemMirrored fuel fs' src dest i"
      "\<forall>i\<in>set items. itemMirrored fuel fs' src dest i"
      by blast+
    from keep rest(1) have "\<forall>i. itemMirrored fuel fs src dest i \<longrightarrow> itemMirrored fuel fs' src dest i"
      by blast
    moreover from mj rest have "\<forall>i\<in>set (item # items). itemMirrored fuel fs' src dest i"
      by simp
    ultimately show "(\<forall>i. itemMirrored fuel fs src dest i \<longrightarrow> itemMirrored fuel fs' src dest i)
         \<and> (\<forall>i\<in>set (item # items). itemMirrored fuel fs' src dest i)"
      by (rule conjI)
  qed
qed

lemma copyDirectory_mirrors:
  "apart src dest \<Longrightarrow> copyDirectory k src dest fs = Completed fs' \<Longrightarrow> mirrors k fs' src dest"
  using copy_mirrors(1) by blast

lemma production_paths:
  "pathOf (outputDir productionBuilder) = [''dist'']"
  "pathJoin [outputDir productionBuilder, ''css''] = [''dist'', ''css'']"
  "pathJoin [outputDir productionBuilder, ''js''] = [''dist'', ''js'']"
  "pathJoin [outputDir productionBuilder, ''assets''] = [''dist'', ''assets'']"
  "pathJoin [outputDir productionBuilder, ''fonts''] = [''dist'', ''fonts'']"
  "pathJoin [outputDir productionBuilder, ''css'', ''styles.min.css'']
     = [''dist'', ''css'', ''styles.min.css'']"
  "pathJoin [outputDir productionBuilder, ''js'', ''scripts.min.js'']
     = [''dist'', ''js'', ''scripts.min.js'']"
  "pathJoin [outputDir productionBuilder, ''css'', ''critical.min.css'']
     = [''dist'', ''css'', ''critical.min.css'']"
  "pathJoin [outputDir productionBuilder, ''index.html''] = [''dist'', ''index.html'']"
  "pathOf ''assets'' = [''assets'']"
  "pathOf ''fonts'' = [''fonts'']"
  "pathOf ''index.html'' = [''index.html'']"
  by (simp_all add: productionBuilder_def pathOf_def pathJoin_def)

lemma source_files:
  "\<forall>f\<in>set (cssFiles productionBuilder). sourcePath (pathOf f)"
  "\<forall>f\<in>set (jsFiles productionBuilder). sourcePath (pathOf f)"
  by (simp_all add: productionBuilder_def pathOf_def sourcePath_def)

lemma combineFiles_cong:
  "\<forall>f\<in>set files. G (pathOf f) = fs (pathOf f)
   \<Longrightarrow> combineFiles G combined files = combineFiles fs combined files"
  by (induction files arbitrary: combined)
    (simp_all add: existsSync_def readFileSync_def split: option.splits node.splits)

lemma ensureDirectory_source:
  assumes "ensureDirectory d fs = Completed fs'" and "prefix [''dist''] d" and "sourcePath p"
  shows "fs' p = fs p"
proof -
  have "\<not> prefix p d"
  proof
    assume "prefix p d"
    from this assms(2) have "prefix p [''dist''] \<or> prefix [''dist''] p"
      by (rule prefix_same_cases)
    with assms(3) show False by (auto simp: sourcePath_def prefix_Cons)
  qed
  with ensureDirectory_Completed(2) [OF assms(1)] show ?thesis by blast
qed

lemma createOutputDirectory_Completed:
  assumes "createOutputDirectory productionBuilder fs = Completed fs'"
  shows "grows fs fs'"
    and "\<And>p. sourcePath p \<Longrightarrow> fs' p = fs p"
    and "fs' [''dist''] \<noteq> None" and "fs' [''dist'', ''css''] \<noteq> None"
    and "fs' [''dist'', ''js''] \<noteq> None" and "fs' [''dist'', ''assets''] \<noteq> None"
    and "fs' [''dist'', ''fonts''] \<noteq> None"
proof -
  from assms obtain f0 f1 f2 f3 where
    e0: "ensureDirectory [''dist''] fs = Completed f0" and
    e1: "ensureDirectory [''dist'', ''css''] f0 = Completed f1" and
    e2: "ensureDirectory [''dist'', ''js''] f1 = Completed f2" and
    e3: "ensureDirectory [''dist'', ''assets''] f2 = Completed f3" and
    e4: "ensureDirectory [''dist'', ''fonts''] f3 = Completed fs'"
    by (auto simp: createOutputDirectory_def andThen_Completed_iff production_paths)
  note g0 = ensureDirectory_Completed(1) [OF e0]
  note g1 = ensureDirectory_Completed(1) [OF e1]
  note g2 = ensureDirectory_Completed(1) [OF e2]
  note g3 = ensureDirectory_Completed(1) [OF e3]
  note g4 = ensureDirectory_Completed(1) [OF e4]
  have g34: "grows f2 fs'" using g3 g4 by (rule grows_trans)
  have g24: "grows f1 fs'" using g2 g34 by (rule grows_trans)
  have g14: "grows f0 fs'" using g1 g24 by (rule grows_trans)
  show "grows fs fs'" using g0 g14 by (rule grows_trans)
  show "\<And>p. sourcePath p \<Longrightarrow> fs' p = fs p"
    using ensureDirectory_source [OF e0] ensureDirectory_source [OF e1]
      ensureDirectory_source [OF e2] ensureDirectory_source [OF e3]
      ensureDirectory_source [OF e4]
    by simp
  from ensureDirectory_Completed(3) [OF e0] have "f0 [''dist''] \<noteq> None" by simp
  with g14 show "fs' [''dist''] \<noteq> None" by (rule grows_exists)
  from ensureDirectory_Completed(3) [OF e1] have "f1 [''dist'', ''css''] \<noteq> None" by simp
  with g24 show "fs' [''dist'', ''css''] \<noteq> None" by (rule grows_exists)
  from ensureDirectory_Completed(3) [OF e2] have "f2 [''dist'', ''js''] \<noteq> None" by simp
  with g34 show "fs' [''dist'', ''js''] \<noteq> None" by (rule grows_exists)
  from ensureDirectory_Completed(3) [OF e3] have "f3 [''dist'', ''assets''] \<noteq> None" by simp
  with g4 show "fs' [''dist'', ''assets''] \<noteq> None" by (rule grows_exists)
  from ensureDirectory_Completed(3) [OF e4] show "fs' [''dist'', ''fonts''] \<noteq> None" by simp
qed

lemma createOutputDirectory_replay:
  assumes "G [''dist''] \<noteq> None" "G [''dist'', ''css''] \<noteq> None" "G [''dist'', ''js''] \<noteq> None"
    "G [''dist'', ''assets''] \<noteq> None" "G [''dist'', ''fonts''] \<noteq> None"
  shows "createOutputDirectory productionBuilder G = Completed G"
  using assms
  by (simp add: createOutputDirectory_def production_paths ensureDirectory_fixpoint
      andThen_Completed)

lemma minifyCSS_Completed:
  assumes "minifyCSS productionBuilder fs = Completed fs'"
  shows "\<exists>combined. combineFiles fs [] (cssFiles productionBuilder) = Inr combined
     \<and> writeFileSync fs [''dist'', ''css'', ''styles.min.css''] (minifyCSSContent combined) = Inr fs'"
  using assms
  by (cases "combineFiles fs [] (cssFiles productionBuilder)")
    (auto simp: minifyCSS_def attempt_Completed_iff production_paths)

lemma minifyJavaScript_Completed:
  assumes "minifyJavaScript productionBuilder fs = Completed fs'"
  shows "\<exists>combined. combineFiles fs [] (jsFiles productionBuilder) = Inr combined
     \<and> writeFileSync fs [''dist'', ''js'', ''scripts.min.js''] (minifyJSContent combined) = Inr fs'"
  using assms
  by (cases "combineFiles fs [] (jsFiles productionBuilder)")
    (auto simp: minifyJavaScript_def attempt_Completed_iff production_paths)

lemma extractCriticalCSS_Completed:
  assumes "extractCriticalCSS productionBuilder fs = Completed fs'"
  shows "\<exists>fullCSS. readFileSync fs [''dist'', ''css'', ''styles.min.css''] = Inr fullCSS
     \<and> writeFileSync fs [''dist'', ''css'', ''critical.min.css''] (criticalCSSText fullCSS) = Inr fs'"
  using assms
  by (cases "readFileSync fs [''dist'', ''css'', ''styles.min.css'']")
    (auto simp: extractCriticalCSS_def attempt_Completed_iff production_paths)

lemma updateHTMLForProduction_Completed:
  assumes "updateHTMLForProduction productionBuilder fs = Completed fs'"
  shows "\<exists>html criticalCSS. readFileSync fs [''index.html''] = Inr html
     \<and> readFileSync fs [''dist'', ''css'', ''critical.min.css''] = Inr criticalCSS
     \<and> writeFileSync fs [''dist'', ''index.html''] (productionHTML criticalCSS html) = Inr fs'"
  using assms
  by (cases "readFileSync fs [''index.html'']";
      cases "readFileSync fs [''dist'', ''css'', ''critical.min.css'']")
    (auto simp: updateHTMLForProduction_def attempt_Completed_iff production_paths)

lemma copyAssets_Completed:
  assumes "copyAssets fuel productionBuilder fs = Completed fs'"
  shows "\<exists>fsm.
     (if fs [''assets''] \<noteq> None
      then copyDirectory fuel [''assets''] [''dist'', ''assets''] fs else Completed fs)
       = Completed fsm
     \<and> (if fsm [''fonts''] \<noteq> None
        then copyDirectory fuel [''fonts''] [''dist'', ''fonts''] fsm else Completed fsm)
       = Completed fs'"
  using assms
  unfolding copyAssets_def andThen_Completed_iff production_paths existsSync_def .

lemma write_source:
  assumes "writeFileSync fs q c = Inr fs'" and "prefix [''dist''] q" and "2 \<le> length q"
    and "sourcePath p"
  shows "fs' p = fs p"
proof -
  from assms(2,4) have "p \<noteq> q" by (auto simp: sourcePath_def)
  moreover have "p \<noteq> butlast q"
  proof
    assume "p = butlast q"
    moreover from assms(2,3) have "prefix [''dist''] (butlast q)"
      by (cases q rule: rev_cases) (auto simp: prefix_Cons)
    ultimately show False using assms(4) by (simp add: sourcePath_def)
  qed
  ultimately show ?thesis using writeFileSync_Inr(4) [OF assms(1)] by blast
qed

lemma copy_source:
  assumes "copyDirectory k src dest fs = Completed fs'" and "prefix [''dist''] dest"
    and "sourcePath p"
  shows "fs' p = fs p"
proof -
  have "\<not> prefix dest p" using assms(2,3)
    by (meson prefix_order.trans sourcePath_def)
  moreover have "\<not> prefix p dest"
  proof
    assume "prefix p dest"
    from this assms(2) have "prefix p [''dist''] \<or> prefix [''dist''] p"
      by (rule prefix_same_cases)
    with assms(3) show False by (auto simp: sourcePath_def prefix_Cons)
  qed
  ultimately show ?thesis using copyDirectory_frame(2) [OF assms(1)] by blast
qed

lemma write_replay:
  assumes w: "writeFileSync fs q c = Inr fs'" and g: "grows fs' G" and same: "G q = fs' q"
  shows "writeFileSync G q c = Inr G"
proof -
  note facts = writeFileSync_Inr [OF w]
  from facts(3) obtain ns where "fs' (butlast q) = Some (Directory ns)" "last q \<in> set ns"
    by blast
  with g obtain ns' where "G (butlast q) = Some (Directory ns')" "last q \<in> set ns'"
    by (blast dest: grows_member)
  moreover from same facts(2) have "G q = Some (File c)" by simp
  ultimately show ?thesis using facts(1) by (blast intro: writeFileSync_fixpoint)
qed

lemma copy_step_Completed:
  assumes "(if fs src \<noteq> None then copyDirectory k src dest fs else Completed fs) = Completed fs'"
  shows "grows fs fs'"
    and "\<And>p. \<not> prefix dest p \<Longrightarrow> \<not> prefix p dest \<Longrightarrow> fs' p = fs p"
    and "apart src dest \<Longrightarrow> fs src \<noteq> None \<Longrightarrow> mirrors k fs' src dest"
proof -
  show "grows fs fs'"
    using assms copyDirectory_frame(1) [of k src dest fs fs']
    by (auto simp: grows_refl split: if_splits)
  show "\<And>p. \<not> prefix dest p \<Longrightarrow> \<not> prefix p dest \<Longrightarrow> fs' p = fs p"
    using assms copyDirectory_frame(2) [of k src dest fs fs']
    by (auto split: if_splits)
  show "apart src dest \<Longrightarrow> fs src \<noteq> None \<Longrightarrow> mirrors k fs' src dest"
    using assms copyDirectory_mirrors [of src dest k fs fs'] by simp
qed

lemma copy_step_replay:
  assumes "G src \<noteq> None \<Longrightarrow> mirrors k G src dest"
  shows "(if G src \<noteq> None then copyDirectory k src dest G else Completed G) = Completed G"
  using assms by (simp add: copyDirectory_replay)

lemma copy_step_source:
  assumes "(if fs src \<noteq> None then copyDirectory k src dest fs else Completed fs) = Completed fs'"
    and "prefix [''dist''] dest" and "sourcePath p"
  shows "fs' p = fs p"
  using assms copy_source [of k src dest fs fs' p] by (auto split: if_splits)

lemma under_source: "prefix [x] p \<Longrightarrow> x \<noteq> ''dist'' \<Longrightarrow> sourcePath p"
  by (auto simp: sourcePath_def prefix_def)

lemma readFileSync_cong: "G p = fs p \<Longrightarrow> readFileSync G p = readFileSync fs p"
  by (simp add: readFileSync_def)

lemma attempt_Inr: "attempt fs (Inr fs') = Completed fs'"
  by (simp add: attempt_def)

section \<open>Running the build a second time\<close>

text \<open>
  Claim C9. When a run of \<open>build\<close> has completed, a second run on the files it has left,
  with the sources and the configuration as they were, completes as well and leaves
  every file as the first run left it: so \<open>styles.min.css\<close>, \<open>scripts.min.js\<close>,
  \<open>critical.min.css\<close> and \<open>index.html\<close> of the second run are, character for character,
  those of the first. Each stage is a function of the files it is given and of the
  builder; the second run reads the same sources (no stage writes outside the output
  directory), so it writes the same texts, and the copies of \<open>assets\<close> and \<open>fonts\<close> are
  already in place.
\<close>

theorem rebuild_changes_nothing:
  assumes "build fuel productionBuilder fs = Completed fs1"
  shows "build fuel productionBuilder fs1 = Completed fs1"
proof -
  let ?b = productionBuilder
  from assms obtain fsA fsB fsC fsD fsE where
    sA: "createOutputDirectory ?b fs = Completed fsA" and
    sB: "minifyCSS ?b fsA = Completed fsB" and
    sC: "minifyJavaScript ?b fsB = Completed fsC" and
    sD: "extractCriticalCSS ?b fsC = Completed fsD" and
    sE: "copyAssets fuel ?b fsD = Completed fsE" and
    sF: "updateHTMLForProduction ?b fsE = Completed fs1"
    unfolding build_def andThen_Completed_iff by blast
  from minifyCSS_Completed [OF sB] obtain css where
    cB: "combineFiles fsA [] (cssFiles ?b) = Inr css" and
    wB: "writeFileSync fsA [''dist'', ''css'', ''styles.min.css''] (minifyCSSContent css) = Inr fsB"
    by blast
  from minifyJavaScript_Completed [OF sC] obtain js where
    cC: "combineFiles fsB [] (jsFiles ?b) = Inr js" and
    wC: "writeFileSync fsB [''dist'', ''js'', ''scripts.min.js''] (minifyJSContent js) = Inr fsC"
    by blast
  from extractCriticalCSS_Completed [OF sD] obtain fullCSS where
    rD: "readFileSync fsC [''dist'', ''css'', ''styles.min.css''] = Inr fullCSS" and
    wD: "writeFileSync fsC [''dist'', ''css'', ''critical.min.css''] (criticalCSSText fullCSS)
           = Inr fsD"
    by blast
  from copyAssets_Completed [OF sE] obtain fsM where
    kA: "(if fsD [''assets''] \<noteq> None
          then copyDirectory fuel [''assets''] [''dist'', ''assets''] fsD else Completed fsD)
           = Completed fsM" and
    kF: "(if fsM [''fonts''] \<noteq> None
          then copyDirectory fuel [''fonts''] [''dist'', ''fonts''] fsM else Completed fsM)
           = Completed fsE"
    by blast
  from updateHTMLForProduction_Completed [OF sF] obtain html criticalCSS where
    rF1: "readFileSync fsE [''index.html''] = Inr html" and
    rF2: "readFileSync fsE [''dist'', ''css'', ''critical.min.css''] = Inr criticalCSS" and
    wF: "writeFileSync fsE [''dist'', ''index.html''] (productionHTML criticalCSS html) = Inr fs1"
    by blast

  note fB = writeFileSync_Inr(4) [OF wB]
  note fC = writeFileSync_Inr(4) [OF wC]
  note fD = writeFileSync_Inr(4) [OF wD]
  note fM = copy_step_Completed(2) [OF kA]
  note fE = copy_step_Completed(2) [OF kF]
  note fF = writeFileSync_Inr(4) [OF wF]

  have gE1: "grows fsE fs1" by (rule writeFileSync_Inr(5) [OF wF])
  have gM1: "grows fsM fs1" using copy_step_Completed(1) [OF kF] gE1 by (rule grows_trans)
  have gD1: "grows fsD fs1" using copy_step_Completed(1) [OF kA] gM1 by (rule grows_trans)
  have gC1: "grows fsC fs1" using writeFileSync_Inr(5) [OF wD] gD1 by (rule grows_trans)
  have gB1: "grows fsB fs1" using writeFileSync_Inr(5) [OF wC] gC1 by (rule grows_trans)
  have gA1: "grows fsA fs1" using writeFileSync_Inr(5) [OF wB] gB1 by (rule grows_trans)

  have srcE: "fs1 p = fsE p" if "sourcePath p" for p
    using write_source [OF wF _ _ that] by simp
  have srcM: "fs1 p = fsM p" if "sourcePath p" for p
    using srcE [OF that] copy_step_source [OF kF _ that] by simp
  have srcD: "fs1 p = fsD p" if "sourcePath p" for p
    using srcM [OF that] copy_step_source [OF kA _ that] by simp
  have srcC: "fs1 p = fsC p" if "sourcePath p" for p
    using srcD [OF that] write_source [OF wD _ _ that] by simp
  have srcB: "fs1 p = fsB p" if "sourcePath p" for p
    using srcC [OF that] write_source [OF wC _ _ that] by simp
  have srcA: "fs1 p = fsA p" if "sourcePath p" for p
    using srcB [OF that] write_source [OF wB _ _ that] by simp

  have r1: "createOutputDirectory ?b fs1 = Completed fs1"
  proof (rule createOutputDirectory_replay)
    show "fs1 [''dist''] \<noteq> None"
      using gA1 createOutputDirectory_Completed(3) [OF sA] by (rule grows_exists)
    show "fs1 [''dist'', ''css''] \<noteq> None"
      using gA1 createOutputDirectory_Completed(4) [OF sA] by (rule grows_exists)
    show "fs1 [''dist'', ''js''] \<noteq> None"
      using gA1 createOutputDirectory_Completed(5) [OF sA] by (rule grows_exists)
    show "fs1 [''dist'', ''assets''] \<noteq> None"
      using gA1 createOutputDirectory_Completed(6) [OF sA] by (rule grows_exists)
    show "fs1 [''dist'', ''fonts''] \<noteq> None"
      using gA1 createOutputDirectory_Completed(7) [OF sA] by (rule grows_exists)
  qed

  have keepS: "fs1 [''dist'', ''css'', ''styles.min.css''] = fsB [''dist'', ''css'', ''styles.min.css'']"
    by (simp add: fF fE fM fD fC)
  have keepSC: "fsC [''dist'', ''css'', ''styles.min.css''] = fsB [''dist'', ''css'', ''styles.min.css'']"
    by (simp add: fC)
  have keepJ: "fs1 [''dist'', ''js'', ''scripts.min.js''] = fsC [''dist'', ''js'', ''scripts.min.js'']"
    by (simp add: fF fE fM fD)
  have keepK: "fs1 [''dist'', ''css'', ''critical.min.css''] = fsD [''dist'', ''css'', ''critical.min.css'']"
    by (simp add: fF fE fM)
  have keepKE: "fs1 [''dist'', ''css'', ''critical.min.css''] = fsE [''dist'', ''css'', ''critical.min.css'']"
    by (simp add: fF)

  have "combineFiles fs1 [] (cssFiles ?b) = combineFiles fsA [] (cssFiles ?b)"
    by (rule combineFiles_cong) (use source_files(1) srcA in blast)
  with cB have cB1: "combineFiles fs1 [] (cssFiles ?b) = Inr css" by simp
  have r2: "minifyCSS ?b fs1 = Completed fs1"
    by (simp add: minifyCSS_def production_paths cB1 write_replay [OF wB gB1 keepS] attempt_Inr)

  have "combineFiles fs1 [] (jsFiles ?b) = combineFiles fsB [] (jsFiles ?b)"
    by (rule combineFiles_cong) (use source_files(2) srcB in blast)
  with cC have cC1: "combineFiles fs1 [] (jsFiles ?b) = Inr js" by simp
  have r3: "minifyJavaScript ?b fs1 = Completed fs1"
    by (simp add: minifyJavaScript_def production_paths cC1 write_replay [OF wC gC1 keepJ]
        attempt_Inr)

  have "readFileSync fs1 [''dist'', ''css'', ''styles.min.css'']
      = readFileSync fsC [''dist'', ''css'', ''styles.min.css'']"
    by (rule readFileSync_cong) (simp add: keepS keepSC)
  with rD have rD1: "readFileSync fs1 [''dist'', ''css'', ''styles.min.css''] = Inr fullCSS"
    by simp
  have r4: "extractCriticalCSS ?b fs1 = Completed fs1"
    by (simp add: extractCriticalCSS_def production_paths rD1 write_replay [OF wD gD1 keepK]
        attempt_Inr)

  have apartA: "apart [''assets''] [''dist'', ''assets'']"
    and apartF: "apart [''fonts''] [''dist'', ''fonts'']"
    by (simp_all add: apart_def)
  have repA: "(if fs1 [''assets''] \<noteq> None
               then copyDirectory fuel [''assets''] [''dist'', ''assets''] fs1 else Completed fs1)
              = Completed fs1"
  proof (rule copy_step_replay)
    assume "fs1 [''assets''] \<noteq> None"
    then have "fsD [''assets''] \<noteq> None" using srcD [of "[''assets'']"]
      by (simp add: sourcePath_def)
    with apartA have m: "mirrors fuel fsM [''assets''] [''dist'', ''assets'']"
      by (rule copy_step_Completed(3) [OF kA])
    have "fs1 p = fsM p" if "prefix [''assets''] p \<or> prefix [''dist'', ''assets''] p" for p
      using that
    proof
      assume "prefix [''assets''] p"
      then have "sourcePath p" by (rule under_source) simp
      then show ?thesis by (rule srcM)
    next
      assume "prefix [''dist'', ''assets''] p"
      then obtain r where "p = ''dist'' # ''assets'' # r" by (auto simp: prefix_def)
      then show ?thesis by (simp add: fF fE)
    qed
    then show "mirrors fuel fs1 [''assets''] [''dist'', ''assets'']" using m
      by (rule mirrors_stable)
  qed
  have repF: "(if fs1 [''fonts''] \<noteq> None
               then copyDirectory fuel [''fonts''] [''dist'', ''fonts''] fs1 else Completed fs1)
              = Completed fs1"
  proof (rule copy_step_replay)
    assume "fs1 [''fonts''] \<noteq> None"
    then have "fsM [''fonts''] \<noteq> None" using srcM [of "[''fonts'']"]
      by (simp add: sourcePath_def)
    with apartF have m: "mirrors fuel fsE [''fonts''] [''dist'', ''fonts'']"
      by (rule copy_step_Completed(3) [OF kF])
    have "fs1 p = fsE p" if "prefix [''fonts''] p \<or> prefix [''dist'', ''fonts''] p" for p
      using that
    proof
      assume "prefix [''fonts''] p"
      then have "sourcePath p" by (rule under_source) simp
      then show ?thesis by (rule srcE)
    next
      assume "prefix [''dist'', ''fonts''] p"
      then obtain r where "p = ''dist'' # ''fonts'' # r" by (auto simp: prefix_def)
      then show ?thesis by (simp add: fF)
    qed
    then show "mirrors fuel fs1 [''fonts''] [''dist'', ''fonts'']" using m
      by (rule mirrors_stable)
  qed
  have r5: "copyAssets fuel ?b fs1 = Completed fs1"
    by (simp only: copyAssets_def production_paths existsSync_def repA andThen_Completed repF)

  have "readFileSync fs1 [''index.html''] = readFileSync fsE [''index.html'']"
    by (rule readFileSync_cong) (simp add: srcE sourcePath_def)
  with rF1 have rF11: "readFileSync fs1 [''index.html''] = Inr html" by simp
  have "readFileSync fs1 [''dist'', ''css'', ''critical.min.css'']
      = readFileSync fsE [''dist'', ''css'', ''critical.min.css'']"
    by (rule readFileSync_cong) (rule keepKE)
  with rF2 have rF21: "readFileSync fs1 [''dist'', ''css'', ''critical.min.css''] = Inr criticalCSS"
    by simp
  have r6: "updateHTMLForProduction ?b fs1 = Completed fs1"
    by (simp add: updateHTMLForProduction_def production_paths rF11 rF21
        write_replay [OF wF grows_refl refl] attempt_Inr)

  show ?thesis
    by (simp only: build_def r1 r2 r3 r4 r5 r6 andThen_Completed)
qed

theorem rebuild_changes_nothing_witness:
  "\<exists>fs1. build 3 productionBuilder exampleFiles = Completed fs1
     \<and> build 3 productionBuilder fs1 = Completed fs1"
proof -
  have "case build 3 productionBuilder exampleFiles of Completed _ \<Rightarrow> True | _ \<Rightarrow> False"
    by code_simp
  then obtain fs1 where "build 3 productionBuilder exampleFiles = Completed fs1"
    by (cases "build 3 productionBuilder exampleFiles") simp_all
  from this rebuild_changes_nothing [OF this] show ?thesis by blast
qed

section \<open>The first pass of the critical-CSS extractor\<close>








end
